theory Spec2Isabelle
  imports Main
begin

unbundle bit_operations_syntax

section \<open>Python values and built-ins used by \<open>ip_calc.py\<close>\<close>

text \<open>
  The module works on Python strings, unbounded integers and lists of integers.
  Strings are modelled as \<open>string\<close> (one \<open>char\<close> per code point below 256), integers
  as \<open>int\<close>, lists as HOL lists. An exception is a value \<open>Inl e\<close> of the result
  type \<open>py_error + 'a\<close>; a normal return is \<open>Inr v\<close>.
\<close>

datatype py_error = ValueError | IndexError

definition and_then :: "py_error + 'a \<Rightarrow> ('a \<Rightarrow> py_error + 'b) \<Rightarrow> py_error + 'b" where
  "and_then m f = (case m of Inl e \<Rightarrow> Inl e | Inr x \<Rightarrow> f x)"

text \<open>\<open>list(map(f, xs))\<close>: the calls are made from left to right, the first exception ends the loop.\<close>

fun map_result :: "('a \<Rightarrow> py_error + 'b) \<Rightarrow> 'a list \<Rightarrow> py_error + 'b list" where
  "map_result f [] = Inr []"
| "map_result f (x # xs) =
     (case f x of
        Inl e \<Rightarrow> Inl e
      | Inr y \<Rightarrow> (case map_result f xs of Inl e \<Rightarrow> Inl e | Inr ys \<Rightarrow> Inr (y # ys)))"

text \<open>\<open>xs[i]\<close> for an index \<open>i \<ge> 0\<close>, and \<open>xs[-1]\<close>.\<close>

definition py_index :: "'a list \<Rightarrow> nat \<Rightarrow> py_error + 'a" where
  "py_index xs i = (if i < length xs then Inr (xs ! i) else Inl IndexError)"

definition py_index_last :: "'a list \<Rightarrow> py_error + 'a" where
  "py_index_last xs = (if xs = [] then Inl IndexError else Inr (last xs))"

text \<open>\<open>xs[-1] = v\<close>, the assignment behind \<open>xs[-1] += 1\<close> and \<open>xs[-1] -= 1\<close>.\<close>

definition py_store_last :: "'a list \<Rightarrow> 'a \<Rightarrow> py_error + 'a list" where
  "py_store_last xs v = (if xs = [] then Inl IndexError else Inr (xs[length xs - 1 := v]))"

subsection \<open>\<open>str.split\<close>, \<open>str.rsplit\<close> and \<open>str.join\<close>\<close>

text \<open>
  \<open>s.split(sep)\<close> with a one-character separator and no \<open>maxsplit\<close> cuts at every
  occurrence of the separator and keeps empty fields; the result is never empty.
  \<open>s.rsplit(sep)\<close> without \<open>maxsplit\<close> returns the same list. \<open>acc\<close> holds the
  current field, reversed.
\<close>

fun split_from :: "char \<Rightarrow> string \<Rightarrow> string \<Rightarrow> string list" where
  "split_from sep acc [] = [rev acc]"
| "split_from sep acc (c # cs) =
     (if c = sep then rev acc # split_from sep [] cs else split_from sep (c # acc) cs)"

definition py_split :: "char \<Rightarrow> string \<Rightarrow> string list" where
  "py_split sep s = split_from sep [] s"

definition py_rsplit :: "char \<Rightarrow> string \<Rightarrow> string list" where
  "py_rsplit sep s = py_split sep s"

fun py_join :: "string \<Rightarrow> string list \<Rightarrow> string" where
  "py_join sep [] = []"
| "py_join sep [x] = x"
| "py_join sep (x # y # ys) = x @ sep @ py_join sep (y # ys)"

subsection \<open>\<open>int(s)\<close> and \<open>str(n)\<close>\<close>

text \<open>
  \<open>int(s)\<close> in base 10 strips white space at both ends, reads an optional sign and then
  decimal digits, where single underscores may stand between two digits; anything else
  raises \<open>ValueError\<close>. The white space it strips is tab, line feed, vertical tab, form
  feed, carriage return and space, and among the code points from 128 to 255 the next-line
  and no-break space characters. Both conversions refuse more than \<open>int_max_str_digits\<close>
  digits (the interpreter's default, 4300) with \<open>ValueError\<close>; sign and underscores are
  not counted.
\<close>

definition int_max_str_digits :: nat where
  "int_max_str_digits = 4300"

definition is_space :: "char \<Rightarrow> bool" where
  "is_space c = ((of_char c :: nat) \<in> {9, 10, 11, 12, 13, 32, 133, 160})"

definition is_digit :: "char \<Rightarrow> bool" where
  "is_digit c = (48 \<le> (of_char c :: nat) \<and> (of_char c :: nat) \<le> 57)"

definition digit_value :: "char \<Rightarrow> int" where
  "digit_value c = int (of_char c) - 48"

definition py_strip :: "string \<Rightarrow> string" where
  "py_strip s = rev (dropWhile is_space (rev (dropWhile is_space s)))"

text \<open>
  The digits of a literal without its underscores, \<open>None\<close> when the literal is
  malformed; \<open>after_digit\<close> tells whether the previous character was a digit.
\<close>

fun scan_digits :: "bool \<Rightarrow> string \<Rightarrow> string option" where
  "scan_digits after_digit [] = (if after_digit then Some [] else None)"
| "scan_digits after_digit (c # cs) =
     (if is_digit c then map_option ((#) c) (scan_digits True cs)
      else if c = CHR ''_'' \<and> after_digit then scan_digits False cs
      else None)"

definition decimal_value :: "string \<Rightarrow> int" where
  "decimal_value ds = foldl (\<lambda>acc c. 10 * acc + digit_value c) 0 ds"

definition py_int :: "string \<Rightarrow> py_error + int" where
  "py_int s =
     (let t = py_strip s;
          neg = (t \<noteq> [] \<and> hd t = CHR ''-'');
          body = (if t \<noteq> [] \<and> (hd t = CHR ''-'' \<or> hd t = CHR ''+'') then tl t else t)
      in case scan_digits False body of
           None \<Rightarrow> Inl ValueError
         | Some ds \<Rightarrow>
             if length ds > int_max_str_digits then Inl ValueError
             else Inr (if neg then - decimal_value ds else decimal_value ds))"

fun decimal_digits :: "nat \<Rightarrow> string" where
  "decimal_digits n =
     (if n < 10 then [char_of (48 + n)]
      else decimal_digits (n div 10) @ [char_of (48 + n mod 10)])"

definition py_str :: "int \<Rightarrow> py_error + string" where
  "py_str n =
     (let ds = decimal_digits (nat \<bar>n\<bar>)
      in if length ds > int_max_str_digits then Inl ValueError
         else Inr (if n < 0 then CHR ''-'' # ds else ds))"

text \<open>
  \<open>'{:08b}'.format(n)\<close>: the binary digits of \<open>n\<close>, filled with zeros after the sign
  to a width of 8; a longer number is not cut.
\<close>

fun binary_digits :: "nat \<Rightarrow> string" where
  "binary_digits n =
     (if n < 2 then [char_of (48 + n)]
      else binary_digits (n div 2) @ [char_of (48 + n mod 2)])"

definition format_08b :: "int \<Rightarrow> string" where
  "format_08b n =
     (let ds = binary_digits (nat \<bar>n\<bar>);
          sign = (if n < 0 then [CHR ''-''] else [])
      in sign @ replicate (8 - length sign - length ds) CHR ''0'' @ ds)"

definition py_str_bool :: "bool \<Rightarrow> string" where
  "py_str_bool b = (if b then ''True'' else ''False'')"

section \<open>The functions of \<open>ip_calc.py\<close>\<close>

definition FULL_BYTE :: int where
  "FULL_BYTE = 255"

definition get_ip_from_raw_address :: "string \<Rightarrow> py_error + string" where
  "get_ip_from_raw_address raw_address = py_index (py_rsplit CHR ''/'' raw_address) 0"

definition split_address :: "string \<Rightarrow> py_error + int list" where
  "split_address raw_address =
     and_then (get_ip_from_raw_address raw_address)
       (\<lambda>ip_address. map_result py_int (py_split CHR ''.'' ip_address))"

definition join_address :: "int list \<Rightarrow> py_error + string" where
  "join_address bytes_lst =
     and_then (map_result py_str bytes_lst) (\<lambda>strs. Inr (py_join ''.'' strs))"

text \<open>
  \<open>for byte in bytes_lst: inverted.append(byte ^ FULL_BYTE)\<close>, with the list built so
  far as accumulator.
\<close>

fun invert_loop :: "int list \<Rightarrow> int list \<Rightarrow> int list" where
  "invert_loop [] inverted = inverted"
| "invert_loop (byte # rest) inverted = invert_loop rest (inverted @ [byte XOR FULL_BYTE])"

definition invert_address :: "int list \<Rightarrow> int list" where
  "invert_address bytes_lst = invert_loop bytes_lst []"

text \<open>
  \<open>mask[bit // 8] += 1 << (7 - bit % 8)\<close> reads the element first, so an index past
  the end of \<open>mask\<close> raises \<open>IndexError\<close>. \<open>range(num_bits)\<close> is empty for
  \<open>num_bits \<le> 0\<close>.
\<close>

definition mask_step :: "int list \<Rightarrow> nat \<Rightarrow> py_error + int list" where
  "mask_step msk b =
     and_then (py_index msk (b div 8))
       (\<lambda>old. Inr (msk[b div 8 := old + push_bit (7 - b mod 8) 1]))"

fun mask_loop :: "nat list \<Rightarrow> int list \<Rightarrow> py_error + int list" where
  "mask_loop [] msk = Inr msk"
| "mask_loop (b # bs) msk = and_then (mask_step msk b) (mask_loop bs)"

definition network_mask_of :: "int \<Rightarrow> py_error + int list" where
  "network_mask_of num_bits = mask_loop [0..<nat num_bits] [0, 0, 0, 0]"

text \<open>\<open>int(raw_address.rsplit('/')[1])\<close>\<close>

definition prefix_of :: "string \<Rightarrow> py_error + int" where
  "prefix_of raw_address = and_then (py_index (py_rsplit CHR ''/'' raw_address) 1) py_int"

definition get_network_mask :: "string \<Rightarrow> py_error + int list" where
  "get_network_mask raw_address = and_then (prefix_of raw_address) network_mask_of"

text \<open>\<open>for idx in range(4): network_address[idx] = ip_address[idx] & mask[idx]\<close>\<close>

fun network_loop :: "int list \<Rightarrow> int list \<Rightarrow> nat list \<Rightarrow> int list \<Rightarrow> py_error + int list" where
  "network_loop ip_address msk [] network_address = Inr network_address"
| "network_loop ip_address msk (idx # idxs) network_address =
     and_then (py_index ip_address idx) (\<lambda>a.
     and_then (py_index msk idx) (\<lambda>m.
     if idx < length network_address
     then network_loop ip_address msk idxs (network_address[idx := a AND m])
     else Inl IndexError))"

definition get_network_address_from_raw_address :: "string \<Rightarrow> py_error + string" where
  "get_network_address_from_raw_address raw_address =
     and_then (split_address raw_address) (\<lambda>ip_address.
     and_then (get_network_mask raw_address) (\<lambda>msk.
     and_then (network_loop ip_address msk [0..<4] [0, 0, 0, 0]) join_address))"

text \<open>\<open>enumerate(xs)\<close>\<close>

definition enumerate_list :: "'a list \<Rightarrow> (nat \<times> 'a) list" where
  "enumerate_list xs = zip [0..<length xs] xs"

text \<open>
  \<open>for idx, byte in enumerate(ip_address):
  broadcast_address.append(byte | broadcast_mask[idx])\<close>
\<close>

fun broadcast_loop :: "int list \<Rightarrow> (nat \<times> int) list \<Rightarrow> int list \<Rightarrow> py_error + int list" where
  "broadcast_loop broadcast_mask [] broadcast_address = Inr broadcast_address"
| "broadcast_loop broadcast_mask ((idx, byte) # rest) broadcast_address =
     and_then (py_index broadcast_mask idx) (\<lambda>m.
     broadcast_loop broadcast_mask rest (broadcast_address @ [byte OR m]))"

definition get_broadcast_address_from_raw_address :: "string \<Rightarrow> py_error + string" where
  "get_broadcast_address_from_raw_address raw_address =
     and_then (get_ip_from_raw_address raw_address) (\<lambda>ip_str.
     and_then (split_address ip_str) (\<lambda>ip_address.
     and_then (get_network_mask raw_address) (\<lambda>network_mask.
     and_then (broadcast_loop (invert_address network_mask) (enumerate_list ip_address) [])
       join_address)))"

text \<open>
  The elements of \<open>network_binary_mask\<close> are strings already, so \<open>join_address\<close>'s
  \<open>map(str, ...)\<close> leaves them as they are.
\<close>

definition get_binary_mask_from_raw_address :: "string \<Rightarrow> py_error + string" where
  "get_binary_mask_from_raw_address raw_address =
     and_then (get_network_mask raw_address) (\<lambda>network_mask.
     Inr (py_join ''.'' (map format_08b network_mask)))"

definition get_first_usable_ip_address_from_raw_address :: "string \<Rightarrow> py_error + string" where
  "get_first_usable_ip_address_from_raw_address raw_address =
     and_then (get_network_address_from_raw_address raw_address) (\<lambda>network_address_str.
     and_then (split_address network_address_str) (\<lambda>network_address.
     and_then (py_index_last network_address) (\<lambda>v.
     and_then (py_store_last network_address (v + 1)) join_address)))"

text \<open>
  \<open>for idx, byte in enumerate(broadcast_address):
  penultimate_ip.append((byte | broadcast_address[idx]) & broadcast_address[idx])\<close>
\<close>

fun penultimate_loop :: "int list \<Rightarrow> (nat \<times> int) list \<Rightarrow> int list \<Rightarrow> py_error + int list" where
  "penultimate_loop broadcast_address [] penultimate_ip = Inr penultimate_ip"
| "penultimate_loop broadcast_address ((idx, byte) # rest) penultimate_ip =
     and_then (py_index broadcast_address idx) (\<lambda>b.
     and_then (py_index broadcast_address idx) (\<lambda>b'.
     penultimate_loop broadcast_address rest (penultimate_ip @ [(byte OR b) AND b'])))"

definition get_penultimate_usable_ip_address_from_raw_address :: "string \<Rightarrow> py_error + string" where
  "get_penultimate_usable_ip_address_from_raw_address raw_address =
     and_then (get_broadcast_address_from_raw_address raw_address) (\<lambda>broadcast_str.
     and_then (split_address broadcast_str) (\<lambda>broadcast_address0.
     and_then (py_index_last broadcast_address0) (\<lambda>v.
     and_then (py_store_last broadcast_address0 (v - 1)) (\<lambda>broadcast_address.
     and_then (penultimate_loop broadcast_address (enumerate_list broadcast_address) [])
       (\<lambda>penultimate_ip.
     and_then (py_index_last penultimate_ip) (\<lambda>w.
     and_then (py_store_last penultimate_ip (w - 1)) join_address))))))"

text \<open>
  \<open>2 ** (32 - num_network_bits) - 2\<close>: an integer when the exponent is not negative.
  With a negative exponent Python's \<open>**\<close> gives a float, whose value is not modelled.
\<close>

datatype py_number = PyInt int | PyFloat

definition get_number_of_usable_hosts_from_raw_address :: "string \<Rightarrow> py_error + py_number" where
  "get_number_of_usable_hosts_from_raw_address raw_address =
     and_then (prefix_of raw_address) (\<lambda>num_network_bits.
     Inr (if 0 \<le> 32 - num_network_bits
          then PyInt (2 ^ nat (32 - num_network_bits) - 2)
          else PyFloat))"

definition get_ip_class_from_raw_address :: "string \<Rightarrow> py_error + string" where
  "get_ip_class_from_raw_address raw_address =
     and_then (split_address raw_address) (\<lambda>ip_address.
     and_then (py_index ip_address 0) (\<lambda>first.
     Inr (if 1 \<le> first \<and> first \<le> 126 then ''A''
          else if 128 \<le> first \<and> first \<le> 191 then ''B''
          else if 192 \<le> first \<and> first \<le> 223 then ''C''
          else if 224 \<le> first \<and> first \<le> 239 then ''D''
          else if 240 \<le> first \<and> first \<le> 247 then ''E''
          else ''Unknown class'')))"

text \<open>
  \<open>ip_address[1]\<close> is read only when \<open>ip_address[0] == 172\<close> (\<open>and\<close> evaluates its
  right operand only then); the slice \<open>ip_address[:2]\<close> never raises.
\<close>

definition check_private_ip_address_from_raw_address :: "string \<Rightarrow> py_error + bool" where
  "check_private_ip_address_from_raw_address raw_address =
     and_then (split_address raw_address) (\<lambda>ip_address.
     and_then (py_index ip_address 0) (\<lambda>first.
     let is_first_block = (first = 10) in
     and_then (py_index ip_address 0) (\<lambda>first'.
     and_then (if first' = 172
               then and_then (py_index ip_address 1) (\<lambda>second. Inr (16 \<le> second \<and> second \<le> 31))
               else Inr False) (\<lambda>is_second_block.
     let is_third_block = (take 2 ip_address = [192, 168]) in
     Inr (is_first_block \<or> is_second_block \<or> is_third_block)))))"

text \<open>
  \<open>get_info\<close> prints nine lines, \<open>print(label, value)\<close> each: the value is computed
  first, then the label, a space and \<open>str(value)\<close> are written. An exception ends the
  function after the lines printed so far. The result is the printed lines and the
  exception, if there was one. A float is reached by no run of \<open>get_info\<close> (the mask has
  raised before); its text is not modelled.
\<close>

definition py_str_number :: "py_number \<Rightarrow> py_error + string" where
  "py_str_number v = (case v of PyInt n \<Rightarrow> py_str n | PyFloat \<Rightarrow> Inr ''<float>'')"

fun print_all :: "(string \<times> (py_error + string)) list \<Rightarrow> string list \<Rightarrow> string list \<times> py_error option" where
  "print_all [] out = (out, None)"
| "print_all ((label, v) # rest) out =
     (case v of
        Inl e \<Rightarrow> (out, Some e)
      | Inr s \<Rightarrow> print_all rest (out @ [label @ '' '' @ s]))"

definition get_info :: "string \<Rightarrow> string list \<times> py_error option" where
  "get_info raw_address =
     print_all
       [(''IP address:'', get_ip_from_raw_address raw_address),
        (''Network Address:'', get_network_address_from_raw_address raw_address),
        (''Broadcast Address:'', get_broadcast_address_from_raw_address raw_address),
        (''Binary Subnet Mask:'', get_binary_mask_from_raw_address raw_address),
        (''First usable host IP:'', get_first_usable_ip_address_from_raw_address raw_address),
        (''Penultimate usable host IP:'',
           get_penultimate_usable_ip_address_from_raw_address raw_address),
        (''Number of usable Hosts:'',
           and_then (get_number_of_usable_hosts_from_raw_address raw_address) py_str_number),
        (''IP class:'', get_ip_class_from_raw_address raw_address),
        (''IP type private:'',
           and_then (check_private_ip_address_from_raw_address raw_address)
             (\<lambda>b. Inr (py_str_bool b)))]
       []"

section \<open>Notions of the specification\<close>

text \<open>
  Bit \<open>i\<close> of a byte address, counted from the most significant bit of the first byte:
  bit \<open>7 - i mod 8\<close> of byte \<open>i div 8\<close>.
\<close>

definition address_bit :: "int list \<Rightarrow> nat \<Rightarrow> bool" where
  "address_bit bytes_lst i = bit (bytes_lst ! (i div 8)) (7 - i mod 8)"

text \<open>
  The state of the mask loop after \<open>k\<close> rounds: four bytes of eight bits each, with
  exactly the first \<open>k\<close> bits set.
\<close>

definition mask_upto :: "nat \<Rightarrow> int list \<Rightarrow> bool" where
  "mask_upto k msk \<longleftrightarrow>
     length msk = 4 \<and> (\<forall>j<4. take_bit 8 (msk ! j) = msk ! j)
     \<and> (\<forall>i<32. address_bit msk i \<longleftrightarrow> i < k)"

text \<open>
  A decimal octet text of a raw address: a non-empty run of decimal digits, short enough
  for \<open>int\<close>. Its canonical form has the leading zeros removed, with one \<open>0\<close> left when
  nothing else remains.
\<close>

definition octet_text :: "string \<Rightarrow> bool" where
  "octet_text s \<longleftrightarrow> s \<noteq> [] \<and> list_all is_digit s \<and> length s \<le> int_max_str_digits"

definition strip_leading_zeros :: "string \<Rightarrow> string" where
  "strip_leading_zeros s =
     (let r = dropWhile (\<lambda>c. c = CHR ''0'') s in if r = [] then ''0'' else r)"

text \<open>A byte address as the data model has it: exactly four integers, each in \<open>[0,255]\<close>.\<close>

definition byte_address :: "int list \<Rightarrow> bool" where
  "byte_address bytes_lst \<longleftrightarrow> length bytes_lst = 4 \<and> list_all (\<lambda>b. 0 \<le> b \<and> b \<le> 255) bytes_lst"

text \<open>The 32-bit number a byte address stands for, most significant byte first.\<close>

definition address_value :: "int list \<Rightarrow> int" where
  "address_value bytes_lst = foldl (\<lambda>v b. 256 * v + b) 0 bytes_lst"

section \<open>Basic facts about the built-ins\<close>

declare decimal_digits.simps [simp del]

declare binary_digits.simps [simp del]

lemma and_then_Inr [simp]: "and_then (Inr x) f = f x"
  by (simp add: and_then_def)

lemma and_then_Inl [simp]: "and_then (Inl e) f = Inl e"
  by (simp add: and_then_def)

lemma and_then_eq_Inr:
  "and_then m f = Inr y \<longleftrightarrow> (\<exists>x. m = Inr x \<and> f x = Inr y)"
  by (cases m) simp_all

lemma py_index_in_range [simp]: "i < length xs \<Longrightarrow> py_index xs i = Inr (xs ! i)"
  by (simp add: py_index_def)

lemma py_index_out_of_range [simp]: "length xs \<le> i \<Longrightarrow> py_index xs i = Inl IndexError"
  by (simp add: py_index_def)

lemma split_from_no_sep:
  "sep \<notin> set s \<Longrightarrow> split_from sep acc (s @ rest) = split_from sep (rev s @ acc) rest"
  by (induction s arbitrary: acc) auto

lemma py_split_field:
  "sep \<notin> set s \<Longrightarrow> py_split sep (s @ sep # rest) = s # py_split sep rest"
  by (simp add: py_split_def split_from_no_sep)

lemma py_split_last_field: "sep \<notin> set s \<Longrightarrow> py_split sep s = [s]"
  using split_from_no_sep [of sep s "[]" "[]"] by (simp add: py_split_def)

lemma split_from_nonempty: "split_from sep acc s \<noteq> []"
  by (induction s arbitrary: acc) auto

lemma py_split_nonempty: "py_split sep s \<noteq> []"
  by (simp add: py_split_def split_from_nonempty)

lemma split_from_hd:
  "hd (split_from sep acc s) = rev acc @ takeWhile (\<lambda>c. c \<noteq> sep) s"
  by (induction s arbitrary: acc) auto

text \<open>\<open>raw_address.rsplit('/')[0]\<close> never raises: it is the text before the first slash.\<close>

lemma get_ip_from_raw_address_eq:
  "get_ip_from_raw_address raw = Inr (takeWhile (\<lambda>c. c \<noteq> CHR ''/'') raw)"
proof -
  have "py_split CHR ''/'' raw \<noteq> []"
    by (rule py_split_nonempty)
  then have "py_index (py_split CHR ''/'' raw) 0 = Inr (hd (py_split CHR ''/'' raw))"
    by (cases "py_split CHR ''/'' raw") simp_all
  then show ?thesis
    by (simp add: get_ip_from_raw_address_def py_rsplit_def py_split_def split_from_hd)
qed

section \<open>Number of usable hosts\<close>

text \<open>
  C6, as the code has it. For every prefix length \<open>p\<close> in \<open>[0,32]\<close> read from the raw
  address, the number of usable hosts is exactly the integer \<open>2^(32-p) - 2\<close>, not
  clamped: it is \<open>0\<close> at \<open>p = 31\<close> and \<open>-1\<close> at \<open>p = 32\<close>, and it is \<open>16777214\<close> for
  \<open>91.124.230.205/8\<close>.
\<close>

theorem usable_hosts_exact:
  assumes "prefix_of raw = Inr p" and "0 \<le> p" and "p \<le> 32"
  shows "get_number_of_usable_hosts_from_raw_address raw = Inr (PyInt (2 ^ nat (32 - p) - 2))
    \<and> (p = 31 \<longrightarrow> get_number_of_usable_hosts_from_raw_address raw = Inr (PyInt 0))
    \<and> (p = 32 \<longrightarrow> get_number_of_usable_hosts_from_raw_address raw = Inr (PyInt (- 1)))
    \<and> get_number_of_usable_hosts_from_raw_address ''91.124.230.205/8'' = Inr (PyInt 16777214)"
proof -
  have "get_number_of_usable_hosts_from_raw_address ''91.124.230.205/8'' = Inr (PyInt 16777214)"
    by code_simp
  then show ?thesis
    using assms by (simp add: get_number_of_usable_hosts_from_raw_address_def)
qed

theorem usable_hosts_exact_witness:
  "prefix_of ''10.0.0.1/32'' = Inr 32 \<and> (0::int) \<le> 32 \<and> (32::int) \<le> 32
   \<and> get_number_of_usable_hosts_from_raw_address ''10.0.0.1/32'' = Inr (PyInt (- 1))
   \<and> prefix_of ''10.0.0.1/31'' = Inr 31 \<and> (0::int) \<le> 31 \<and> (31::int) \<le> 32
   \<and> get_number_of_usable_hosts_from_raw_address ''10.0.0.1/31'' = Inr (PyInt 0)"
proof -
  have h: "prefix_of ''10.0.0.1/32'' = Inr 32"
    by code_simp
  have k: "prefix_of ''10.0.0.1/31'' = Inr 31"
    by code_simp
  from usable_hosts_exact [OF h] usable_hosts_exact [OF k] show ?thesis
    using h k by simp
qed

text \<open>
  The edge values the other way round, \<open>-1\<close> at \<open>p = 31\<close> and \<open>0\<close> at \<open>p = 32\<close>, are not
  what the formula gives.
\<close>

theorem usable_hosts_edges_counterexample:
  "get_number_of_usable_hosts_from_raw_address ''10.0.0.1/31'' = Inr (PyInt 0)
   \<and> get_number_of_usable_hosts_from_raw_address ''10.0.0.1/31'' \<noteq> Inr (PyInt (- 1))
   \<and> get_number_of_usable_hosts_from_raw_address ''10.0.0.1/32'' = Inr (PyInt (- 1))
   \<and> get_number_of_usable_hosts_from_raw_address ''10.0.0.1/32'' \<noteq> Inr (PyInt 0)"
proof -
  have a: "get_number_of_usable_hosts_from_raw_address ''10.0.0.1/31'' = Inr (PyInt 0)"
    by code_simp
  have b: "get_number_of_usable_hosts_from_raw_address ''10.0.0.1/32'' = Inr (PyInt (- 1))"
    by code_simp
  show ?thesis
    by (simp add: a b)
qed

section \<open>Classification\<close>

lemma ip_class_eq:
  assumes "split_address raw = Inr (first # rest)"
  shows "get_ip_class_from_raw_address raw =
    Inr (if 1 \<le> first \<and> first \<le> 126 then ''A''
         else if 128 \<le> first \<and> first \<le> 191 then ''B''
         else if 192 \<le> first \<and> first \<le> 223 then ''C''
         else if 224 \<le> first \<and> first \<le> 239 then ''D''
         else if 240 \<le> first \<and> first \<le> 247 then ''E''
         else ''Unknown class'')"
  using assms by (simp add: get_ip_class_from_raw_address_def)

text \<open>
  C7. The class is decided by the first octet alone: \<open>A\<close> for \<open>[1,126]\<close>, \<open>B\<close> for
  \<open>[128,191]\<close>, \<open>C\<close> for \<open>[192,223]\<close>, \<open>D\<close> for \<open>[224,239]\<close>, \<open>E\<close> for \<open>[240,247]\<close>,
  and the text \<open>Unknown class\<close> for every other value (0, 127, 248 and above, and what
  lies below 0). The class of \<open>225.124.230.205/30\<close> is \<open>D\<close>.
\<close>

theorem ip_class_ranges:
  assumes "split_address raw = Inr (first # rest)"
  shows "(1 \<le> first \<and> first \<le> 126 \<longrightarrow> get_ip_class_from_raw_address raw = Inr ''A'')
    \<and> (128 \<le> first \<and> first \<le> 191 \<longrightarrow> get_ip_class_from_raw_address raw = Inr ''B'')
    \<and> (192 \<le> first \<and> first \<le> 223 \<longrightarrow> get_ip_class_from_raw_address raw = Inr ''C'')
    \<and> (224 \<le> first \<and> first \<le> 239 \<longrightarrow> get_ip_class_from_raw_address raw = Inr ''D'')
    \<and> (240 \<le> first \<and> first \<le> 247 \<longrightarrow> get_ip_class_from_raw_address raw = Inr ''E'')
    \<and> (first \<le> 0 \<or> first = 127 \<or> 248 \<le> first \<longrightarrow>
          get_ip_class_from_raw_address raw = Inr ''Unknown class'')
    \<and> get_ip_class_from_raw_address ''225.124.230.205/30'' = Inr ''D''"
proof -
  have "get_ip_class_from_raw_address ''225.124.230.205/30'' = Inr ''D''"
    by code_simp
  then show ?thesis
    by (auto simp: ip_class_eq [OF assms])
qed

theorem ip_class_ranges_witness:
  "split_address ''126.0.0.1/8'' = Inr (126 # [0, 0, 1])
   \<and> get_ip_class_from_raw_address ''126.0.0.1/8'' = Inr ''A''
   \<and> split_address ''128.0.0.1/8'' = Inr (128 # [0, 0, 1])
   \<and> get_ip_class_from_raw_address ''128.0.0.1/8'' = Inr ''B''
   \<and> split_address ''223.0.0.1/8'' = Inr (223 # [0, 0, 1])
   \<and> get_ip_class_from_raw_address ''223.0.0.1/8'' = Inr ''C''
   \<and> split_address ''225.124.230.205/30'' = Inr (225 # [124, 230, 205])
   \<and> get_ip_class_from_raw_address ''225.124.230.205/30'' = Inr ''D''
   \<and> split_address ''247.0.0.1/8'' = Inr (247 # [0, 0, 1])
   \<and> get_ip_class_from_raw_address ''247.0.0.1/8'' = Inr ''E''
   \<and> split_address ''127.0.0.1/8'' = Inr (127 # [0, 0, 1])
   \<and> get_ip_class_from_raw_address ''127.0.0.1/8'' = Inr ''Unknown class''"
proof -
  have a: "split_address ''126.0.0.1/8'' = Inr (126 # [0, 0, 1])"
    by code_simp
  have b: "split_address ''128.0.0.1/8'' = Inr (128 # [0, 0, 1])"
    by code_simp
  have c: "split_address ''223.0.0.1/8'' = Inr (223 # [0, 0, 1])"
    by code_simp
  have d: "split_address ''225.124.230.205/30'' = Inr (225 # [124, 230, 205])"
    by code_simp
  have e: "split_address ''247.0.0.1/8'' = Inr (247 # [0, 0, 1])"
    by code_simp
  have u: "split_address ''127.0.0.1/8'' = Inr (127 # [0, 0, 1])"
    by code_simp
  from ip_class_ranges [OF a] ip_class_ranges [OF b] ip_class_ranges [OF c]
    ip_class_ranges [OF d] ip_class_ranges [OF e] ip_class_ranges [OF u]
  show ?thesis
    using a b c d e u by simp
qed

lemma private_check_eq:
  assumes "split_address raw = Inr (a # b # rest)"
  shows "check_private_ip_address_from_raw_address raw =
    Inr (a = 10 \<or> (a = 172 \<and> 16 \<le> b \<and> b \<le> 31) \<or> (a = 192 \<and> b = 168))"
  using assms by (simp add: check_private_ip_address_from_raw_address_def)

text \<open>
  C8. For an address of at least two octets the private check returns true if and only
  if the first octet is 10, or the first is 172 and the second lies in \<open>[16,31]\<close>, or the
  first two are 192 and 168. \<open>172.25.255.255/8\<close> is private, \<open>172.32.0.0/8\<close> is not.
\<close>

theorem private_iff_blocks:
  assumes "split_address raw = Inr (a # b # rest)"
  shows "(check_private_ip_address_from_raw_address raw = Inr True \<longleftrightarrow>
            a = 10 \<or> (a = 172 \<and> 16 \<le> b \<and> b \<le> 31) \<or> (a = 192 \<and> b = 168))
    \<and> (check_private_ip_address_from_raw_address raw = Inr True
          \<or> check_private_ip_address_from_raw_address raw = Inr False)
    \<and> check_private_ip_address_from_raw_address ''172.25.255.255/8'' = Inr True
    \<and> check_private_ip_address_from_raw_address ''172.32.0.0/8'' = Inr False"
proof -
  have t: "check_private_ip_address_from_raw_address ''172.25.255.255/8'' = Inr True"
    by code_simp
  have f: "check_private_ip_address_from_raw_address ''172.32.0.0/8'' = Inr False"
    by code_simp
  show ?thesis
    unfolding private_check_eq [OF assms] using t f by auto
qed

theorem private_iff_blocks_witness:
  "split_address ''192.168.32.45/8'' = Inr (192 # 168 # [32, 45])
   \<and> check_private_ip_address_from_raw_address ''192.168.32.45/8'' = Inr True
   \<and> split_address ''172.32.0.0/8'' = Inr (172 # 32 # [0, 0])
   \<and> check_private_ip_address_from_raw_address ''172.32.0.0/8'' \<noteq> Inr True"
proof -
  have h: "split_address ''192.168.32.45/8'' = Inr (192 # 168 # [32, 45])"
    by code_simp
  have k: "split_address ''172.32.0.0/8'' = Inr (172 # 32 # [0, 0])"
    by code_simp
  from private_iff_blocks [OF h] private_iff_blocks [OF k] show ?thesis
    using h k by simp
qed

section \<open>The network mask\<close>

lemma mask_loop_append:
  "mask_loop (xs @ ys) msk = and_then (mask_loop xs msk) (mask_loop ys)"
  by (induction xs arbitrary: msk) (auto simp: and_then_def split: sum.splits)

lemma mask_upto_zero: "mask_upto 0 [0, 0, 0, 0]"
proof -
  have "\<And>j. j < 4 \<Longrightarrow> [0, 0, 0, 0::int] ! j = 0"
    using nth_replicate [of _ 4 "0::int"] by (simp add: numeral_eq_Suc)
  then show ?thesis
    by (simp add: mask_upto_def address_bit_def)
qed

text \<open>Adding \<open>1 << n\<close> to a number whose bit \<open>n\<close> is clear sets that bit.\<close>

lemma add_unset_bit:
  fixes x :: int
  assumes "\<not> bit x n"
  shows "x + 2 ^ n = set_bit n x"
  using assms by (simp add: set_bit_eq)

lemma mask_step_upto:
  assumes "mask_upto k msk" and "k < 32"
  shows "\<exists>msk'. mask_step msk k = Inr msk' \<and> mask_upto (Suc k) msk'"
proof -
  let ?j = "k div 8" and ?n = "7 - k mod 8"
  let ?new = "msk[?j := set_bit ?n (msk ! ?j)]"
  from assms have len: "length msk = 4" and j: "?j < 4"
    by (auto simp: mask_upto_def)
  from assms have "\<not> address_bit msk k"
    by (auto simp: mask_upto_def)
  then have unset: "\<not> bit (msk ! ?j) ?n"
    by (simp add: address_bit_def)
  have step: "mask_step msk k = Inr ?new"
    using len j by (simp add: mask_step_def add_unset_bit [OF unset])
  have bytes: "take_bit 8 (?new ! j) = ?new ! j" if "j < 4" for j
  proof (cases "j = ?j")
    case True
    have "\<not> 8 \<le> ?n"
      by arith
    then have "take_bit 8 (set_bit ?n (msk ! ?j)) = set_bit ?n (take_bit 8 (msk ! ?j))"
      by (simp only: take_bit_set_bit_eq if_False)
    then show ?thesis
      using True assms(1) j len by (simp add: mask_upto_def)
  next
    case False
    then show ?thesis
      using assms(1) that by (simp add: mask_upto_def)
  qed
  have bits: "address_bit ?new i \<longleftrightarrow> i < Suc k" if "i < 32" for i
  proof (cases "i div 8 = ?j")
    case True
    have "7 - i mod 8 = ?n \<longleftrightarrow> i = k"
    proof
      assume "7 - i mod 8 = ?n"
      moreover have "i mod 8 < 8" and "k mod 8 < 8"
        by simp_all
      ultimately have "i mod 8 = k mod 8"
        by linarith
      with True show "i = k"
        by (metis div_mult_mod_eq)
    qed simp
    moreover have "address_bit msk i \<longleftrightarrow> i < k"
      using assms(1) that by (simp add: mask_upto_def)
    ultimately show ?thesis
      using True j len by (auto simp: address_bit_def bit_set_bit_iff)
  next
    case False
    then have "i \<noteq> k" by auto
    moreover have "address_bit msk i \<longleftrightarrow> i < k"
      using assms(1) that by (simp add: mask_upto_def)
    ultimately show ?thesis
      using False by (auto simp: address_bit_def)
  qed
  from step bytes bits len show ?thesis
    by (simp add: mask_upto_def)
qed

lemma mask_loop_upto:
  "k \<le> 32 \<Longrightarrow> \<exists>msk. mask_loop [0..<k] [0, 0, 0, 0] = Inr msk \<and> mask_upto k msk"
proof (induction k)
  case 0
  then show ?case
    by (simp add: mask_upto_zero)
next
  case (Suc k)
  then obtain msk where loop: "mask_loop [0..<k] [0, 0, 0, 0] = Inr msk"
    and inv: "mask_upto k msk"
    by auto
  from Suc.prems have "k < 32"
    by simp
  from mask_step_upto [OF inv this] obtain msk' where
    "mask_step msk k = Inr msk'" and "mask_upto (Suc k) msk'"
    by blast
  then show ?case
    using loop by (simp add: mask_loop_append)
qed

lemma network_mask_of_upto:
  assumes "0 \<le> p" and "p \<le> 32"
  shows "\<exists>msk. network_mask_of p = Inr msk \<and> mask_upto (nat p) msk"
  using mask_loop_upto [of "nat p"] assms by (simp add: network_mask_of_def)

lemma byte_range:
  fixes x :: int
  shows "take_bit 8 x = x \<longleftrightarrow> 0 \<le> x \<and> x \<le> 255"
  by (auto simp: take_bit_int_eq_self_iff)

lemma mask_upto_bytes:
  assumes "mask_upto k msk"
  shows "\<forall>b\<in>set msk. 0 \<le> b \<and> b \<le> 255"
proof
  fix b
  assume "b \<in> set msk"
  then obtain j where "j < length msk" and "msk ! j = b"
    by (auto simp: in_set_conv_nth)
  with assms have "take_bit 8 b = b"
    by (auto simp: mask_upto_def)
  then show "0 \<le> b \<and> b \<le> 255"
    by (simp add: byte_range)
qed

text \<open>A prefix length above 32 makes the loop reach bit 32, whose byte does not exist.\<close>

lemma network_mask_of_above_32:
  assumes "32 < p"
  shows "network_mask_of p = Inl IndexError"
proof -
  define first where "first = [0..<32::nat]"
  obtain msk where loop: "mask_loop first [0, 0, 0, 0] = Inr msk" and inv: "mask_upto 32 msk"
    using mask_loop_upto [of 32] unfolding first_def by auto
  from inv have len: "length msk = 4"
    by (simp add: mask_upto_def)
  from assms have above: "32 < nat p"
    by simp
  then have "[0..<nat p] = [0..<32] @ [32..<32 + (nat p - 32)]"
    by (simp only: upt_add_eq_append [OF le0, symmetric]) simp
  also have "[32..<32 + (nat p - 32)] = 32 # [Suc 32..<32 + (nat p - 32)]"
    using above by (intro upt_conv_Cons) simp
  finally have "[0..<nat p] = first @ 32 # [Suc 32..<32 + (nat p - 32)]"
    by (simp only: first_def)
  moreover have "mask_step msk 32 = Inl IndexError"
    using len by (simp add: mask_step_def)
  ultimately show ?thesis
    using loop by (simp add: network_mask_of_def mask_loop_append)
qed

text \<open>A prefix length below 0 gives an empty \<open>range\<close>: the mask stays as it was created.\<close>

lemma network_mask_of_not_positive:
  assumes "p \<le> 0"
  shows "network_mask_of p = Inr [0, 0, 0, 0]"
  using assms by (simp add: network_mask_of_def)

lemma get_network_mask_prefix:
  "prefix_of raw = Inr p \<Longrightarrow> get_network_mask raw = network_mask_of p"
  by (simp add: get_network_mask_def)

text \<open>
  C4. For every prefix length \<open>p\<close> in \<open>[0,32]\<close> read from the raw address, the network
  mask has four bytes, each in \<open>[0,255]\<close>, and its bit \<open>i\<close> (counted from the most
  significant bit of the first byte, \<open>i < 32\<close>) is set if and only if \<open>i < p\<close>. The
  prefix 0 gives \<open>[0,0,0,0]\<close>, 32 gives \<open>[255,255,255,255]\<close>, and \<open>0.0.0.0/9\<close> gives
  \<open>[255,128,0,0]\<close>.
\<close>

theorem network_mask_bits:
  assumes "prefix_of raw = Inr p" and "0 \<le> p" and "p \<le> 32"
  shows "(\<exists>msk. get_network_mask raw = Inr msk \<and> length msk = 4
            \<and> (\<forall>b\<in>set msk. 0 \<le> b \<and> b \<le> 255)
            \<and> (\<forall>i<32. address_bit msk i \<longleftrightarrow> int i < p))
    \<and> (p = 0 \<longrightarrow> get_network_mask raw = Inr [0, 0, 0, 0])
    \<and> (p = 32 \<longrightarrow> get_network_mask raw = Inr [255, 255, 255, 255])
    \<and> get_network_mask ''0.0.0.0/9'' = Inr [255, 128, 0, 0]"
proof -
  from network_mask_of_upto [OF assms(2,3)] obtain msk where
    m: "network_mask_of p = Inr msk" and inv: "mask_upto (nat p) msk"
    by blast
  have "\<forall>i<32. address_bit msk i \<longleftrightarrow> int i < p"
    using inv assms(2) by (auto simp: mask_upto_def)
  moreover have "length msk = 4"
    using inv by (simp add: mask_upto_def)
  ultimately have general: "\<exists>msk. get_network_mask raw = Inr msk \<and> length msk = 4
      \<and> (\<forall>b\<in>set msk. 0 \<le> b \<and> b \<le> 255) \<and> (\<forall>i<32. address_bit msk i \<longleftrightarrow> int i < p)"
    using m mask_upto_bytes [OF inv] get_network_mask_prefix [OF assms(1)] by auto
  have zero: "network_mask_of 0 = Inr [0, 0, 0, 0]"
    by (simp add: network_mask_of_not_positive)
  have full: "network_mask_of 32 = Inr [255, 255, 255, 255]"
    by code_simp
  have nine: "get_network_mask ''0.0.0.0/9'' = Inr [255, 128, 0, 0]"
    by code_simp
  from general zero full nine show ?thesis
    using get_network_mask_prefix [OF assms(1)] by simp
qed

theorem network_mask_bits_witness:
  "prefix_of ''91.124.230.205/30'' = Inr 30 \<and> (0::int) \<le> 30 \<and> (30::int) \<le> 32
   \<and> (\<exists>msk. get_network_mask ''91.124.230.205/30'' = Inr msk \<and> length msk = 4
         \<and> (\<forall>b\<in>set msk. 0 \<le> b \<and> b \<le> 255)
         \<and> (\<forall>i<32. address_bit msk i \<longleftrightarrow> int i < 30))
   \<and> prefix_of ''1.2.3.4/0'' = Inr 0
   \<and> get_network_mask ''1.2.3.4/0'' = Inr [0, 0, 0, 0]
   \<and> prefix_of ''1.2.3.4/32'' = Inr 32
   \<and> get_network_mask ''1.2.3.4/32'' = Inr [255, 255, 255, 255]"
proof -
  have h: "prefix_of ''91.124.230.205/30'' = Inr 30"
    by code_simp
  have z: "prefix_of ''1.2.3.4/0'' = Inr 0"
    by code_simp
  have f: "prefix_of ''1.2.3.4/32'' = Inr 32"
    by code_simp
  from network_mask_bits [OF h] network_mask_bits [OF z] network_mask_bits [OF f]
  show ?thesis
    using h z f by simp
qed

text \<open>
  C3, as the code has it. A prefix length above 32 makes the mask computation raise
  \<open>IndexError\<close>: the loop stops at bit 32 and no mask is returned, so no bit is written
  outside the four bytes. A prefix length below 0 raises nothing and returns the all-zero
  mask, the mask of prefix 0. In neither case is an error value returned.
\<close>

theorem mask_prefix_outside_range:
  assumes "prefix_of raw = Inr p"
  shows "(32 < p \<longrightarrow> get_network_mask raw = Inl IndexError)
    \<and> (p < 0 \<longrightarrow> get_network_mask raw = Inr [0, 0, 0, 0])"
  using get_network_mask_prefix [OF assms]
  by (simp add: network_mask_of_above_32 network_mask_of_not_positive)

theorem mask_prefix_outside_range_witness:
  "prefix_of ''0.0.0.0/33'' = Inr 33 \<and> get_network_mask ''0.0.0.0/33'' = Inl IndexError
   \<and> prefix_of ''0.0.0.0/-1'' = Inr (- 1) \<and> get_network_mask ''0.0.0.0/-1'' = Inr [0, 0, 0, 0]"
proof -
  have h: "prefix_of ''0.0.0.0/33'' = Inr 33"
    by code_simp
  have k: "prefix_of ''0.0.0.0/-1'' = Inr (- 1)"
    by code_simp
  from mask_prefix_outside_range [OF h] mask_prefix_outside_range [OF k] show ?thesis
    using h k by simp
qed

text \<open>
  With the prefix \<open>-1\<close> there is neither a fault nor a bit written anywhere: the result
  is a list, and it is the all-zero mask.
\<close>

theorem mask_negative_prefix_counterexample:
  "prefix_of ''0.0.0.0/-1'' = Inr (- 1)
   \<and> get_network_mask ''0.0.0.0/-1'' = Inr [0, 0, 0, 0]
   \<and> get_network_mask ''0.0.0.0/-1'' \<noteq> Inl IndexError
   \<and> get_network_mask ''0.0.0.0/-1'' \<noteq> Inl ValueError"
proof -
  have p: "prefix_of ''0.0.0.0/-1'' = Inr (- 1)"
    by code_simp
  have m: "get_network_mask ''0.0.0.0/-1'' = Inr [0, 0, 0, 0]"
    by code_simp
  show ?thesis
    by (simp add: p m)
qed

section \<open>Decimal text of integers\<close>

lemma is_digit_char_of: "(d::nat) < 10 \<Longrightarrow> is_digit (char_of (48 + d))"
  by (simp add: is_digit_def)

lemma digit_value_char_of: "(d::nat) < 10 \<Longrightarrow> digit_value (char_of (48 + d)) = int d"
  by (simp add: digit_value_def)

lemma decimal_digits_all_digits: "list_all is_digit (decimal_digits n)"
proof (induction n rule: decimal_digits.induct)
  case (1 n)
  show ?case
  proof (cases "n < 10")
    case True
    then show ?thesis
      by (simp add: decimal_digits.simps [of n] is_digit_char_of)
  next
    case False
    then show ?thesis
      using 1 by (simp add: decimal_digits.simps [of n] is_digit_char_of)
  qed
qed

lemma decimal_digits_nonempty: "decimal_digits n \<noteq> []"
  by (simp add: decimal_digits.simps [of n])

lemma decimal_value_snoc:
  "decimal_value (ds @ [c]) = 10 * decimal_value ds + digit_value c"
  by (simp add: decimal_value_def)

lemma decimal_value_decimal_digits: "decimal_value (decimal_digits n) = int n"
proof (induction n rule: decimal_digits.induct)
  case (1 n)
  show ?case
  proof (cases "n < 10")
    case True
    then show ?thesis
      by (simp add: decimal_digits.simps [of n] decimal_value_def digit_value_char_of)
  next
    case False
    then have "decimal_value (decimal_digits n) = 10 * int (n div 10) + int (n mod 10)"
      using 1 by (simp add: decimal_digits.simps [of n] decimal_value_snoc digit_value_char_of)
    then show ?thesis
      by (simp add: zdiv_int zmod_int)
  qed
qed

lemma scan_digits_all_digits:
  "list_all is_digit ds \<Longrightarrow> scan_digits b ds = (if ds = [] \<and> \<not> b then None else Some ds)"
  by (induction ds arbitrary: b) auto

lemma is_digit_not_space: "is_digit c \<Longrightarrow> \<not> is_space c"
  by (auto simp: is_digit_def is_space_def)

lemma is_digit_not_sign: "is_digit c \<Longrightarrow> c \<noteq> CHR ''-'' \<and> c \<noteq> CHR ''+'' \<and> c \<noteq> CHR ''.'' \<and> c \<noteq> CHR ''/''"
  by (auto simp: is_digit_def)

lemma py_strip_id:
  assumes "s \<noteq> []" and "\<not> is_space (hd s)" and "\<not> is_space (last s)"
  shows "py_strip s = s"
proof -
  from assms have "dropWhile is_space s = s"
    by (cases s) simp_all
  moreover from assms have "dropWhile is_space (rev s) = rev s"
    by (cases "rev s") (simp_all add: hd_rev)
  ultimately show ?thesis
    by (simp add: py_strip_def)
qed

lemma py_int_digits:
  assumes "ds \<noteq> []" and "list_all is_digit ds" and "length ds \<le> int_max_str_digits"
  shows "py_int ds = Inr (decimal_value ds)"
    and "py_int (CHR ''-'' # ds) = Inr (- decimal_value ds)"
proof -
  from assms have h: "is_digit (hd ds)" and l: "is_digit (last ds)"
    by (cases ds, simp_all add: list_all_iff)+
  have strip: "py_strip ds = ds"
    using assms(1) h l by (simp add: py_strip_id is_digit_not_space)
  have "\<not> is_space (last (CHR ''-'' # ds))"
    using assms(1) l by (simp add: is_digit_not_space)
  moreover have "\<not> is_space (hd (CHR ''-'' # ds))"
    by (simp add: is_space_def)
  ultimately have strip': "py_strip (CHR ''-'' # ds) = CHR ''-'' # ds"
    by (intro py_strip_id) simp_all
  have scan: "scan_digits False ds = Some ds"
    using assms(1,2) by (simp add: scan_digits_all_digits)
  show "py_int ds = Inr (decimal_value ds)"
    using assms(1,3) h scan by (simp add: py_int_def strip is_digit_not_sign)
  show "py_int (CHR ''-'' # ds) = Inr (- decimal_value ds)"
    using assms(3) scan by (simp add: py_int_def strip')
qed

text \<open>\<open>int(str(n)) == n\<close>\<close>

lemma py_int_py_str:
  assumes "py_str n = Inr s"
  shows "py_int s = Inr n"
proof -
  let ?ds = "decimal_digits (nat \<bar>n\<bar>)"
  from assms have len: "length ?ds \<le> int_max_str_digits"
    and s: "s = (if n < 0 then CHR ''-'' # ?ds else ?ds)"
    by (auto simp: py_str_def Let_def split: if_splits)
  have "decimal_value ?ds = \<bar>n\<bar>"
    by (simp add: decimal_value_decimal_digits)
  then show ?thesis
    using py_int_digits [OF decimal_digits_nonempty decimal_digits_all_digits len] s
    by (cases "n < 0") simp_all
qed

lemma py_str_no_separator:
  assumes "py_str n = Inr s"
  shows "CHR ''.'' \<notin> set s" and "CHR ''/'' \<notin> set s"
proof -
  let ?ds = "decimal_digits (nat \<bar>n\<bar>)"
  from assms have s: "s = (if n < 0 then CHR ''-'' # ?ds else ?ds)"
    by (auto simp: py_str_def Let_def split: if_splits)
  have "c \<noteq> CHR ''.'' \<and> c \<noteq> CHR ''/''" if "c \<in> set ?ds" for c
  proof -
    from that have "is_digit c"
      using decimal_digits_all_digits [of "nat \<bar>n\<bar>"] by (simp add: list_all_iff)
    then show ?thesis
      by (rule is_digit_not_sign [THEN conjunct2, THEN conjunct2])
  qed
  then have "CHR ''.'' \<notin> set ?ds" and "CHR ''/'' \<notin> set ?ds"
    by blast+
  then show "CHR ''.'' \<notin> set s" and "CHR ''/'' \<notin> set s"
    using s by (cases "n < 0"; simp)+
qed

lemma py_join_Cons:
  "ys \<noteq> [] \<Longrightarrow> py_join sep (x # ys) = x @ sep @ py_join sep ys"
  by (cases ys) simp_all

lemma py_split_py_join:
  assumes "ss \<noteq> []" and "\<forall>s\<in>set ss. sep \<notin> set s"
  shows "py_split sep (py_join [sep] ss) = ss"
  using assms
proof (induction ss)
  case Nil
  then show ?case by simp
next
  case (Cons s ss)
  show ?case
  proof (cases "ss = []")
    case True
    then show ?thesis
      using Cons.prems by (simp add: py_split_last_field)
  next
    case False
    then show ?thesis
      using Cons by (simp add: py_join_Cons py_split_field)
  qed
qed

lemma py_join_no_separator:
  assumes "\<forall>s\<in>set ss. c \<notin> set s" and "c \<notin> set sep"
  shows "c \<notin> set (py_join sep ss)"
  using assms by (induction sep ss rule: py_join.induct) auto

lemma map_result_eq_Inr:
  "map_result f xs = Inr ys \<longleftrightarrow> length ys = length xs \<and> (\<forall>i<length xs. f (xs ! i) = Inr (ys ! i))"
proof (induction xs arbitrary: ys)
  case Nil
  then show ?case by auto
next
  case (Cons x xs)
  show ?case
  proof (cases ys)
    case Nil
    then show ?thesis
      by (auto split: sum.splits)
  next
    case (Cons y ys')
    then show ?thesis
      using Cons.IH [of ys'] by (auto simp: less_Suc_eq_0_disj split: sum.splits)
  qed
qed

text \<open>\<open>split_address(join_address(bytes_lst)) == bytes_lst\<close> for a non-empty list.\<close>

lemma split_address_join_address:
  assumes "join_address bs = Inr s" and "bs \<noteq> []"
  shows "split_address s = Inr bs"
proof -
  from assms(1) obtain ss where ss: "map_result py_str bs = Inr ss" and s: "s = py_join ''.'' ss"
    by (auto simp: join_address_def and_then_eq_Inr)
  from ss have len: "length ss = length bs" and each: "\<forall>i<length bs. py_str (bs ! i) = Inr (ss ! i)"
    by (simp_all add: map_result_eq_Inr)
  have nosep: "\<forall>t\<in>set ss. CHR ''.'' \<notin> set t \<and> CHR ''/'' \<notin> set t"
  proof
    fix t
    assume "t \<in> set ss"
    then obtain i where "i < length bs" and "ss ! i = t"
      using len by (auto simp: in_set_conv_nth)
    with each have "py_str (bs ! i) = Inr t"
      by simp
    then show "CHR ''.'' \<notin> set t \<and> CHR ''/'' \<notin> set t"
      by (simp add: py_str_no_separator)
  qed
  then have "CHR ''/'' \<notin> set s"
    unfolding s by (intro py_join_no_separator) auto
  then have ip: "get_ip_from_raw_address s = Inr s"
    by (auto simp: get_ip_from_raw_address_eq takeWhile_eq_all_conv)
  have "ss \<noteq> []"
    using len assms(2) by auto
  then have fields: "py_split CHR ''.'' s = ss"
    unfolding s using nosep by (intro py_split_py_join) auto
  have "map_result py_int ss = Inr bs"
    using len each by (simp add: map_result_eq_Inr py_int_py_str)
  then show ?thesis
    by (simp add: split_address_def ip fields)
qed

section \<open>Writing and reading back small integers\<close>

lemma decimal_digits_length:
  "0 < k \<Longrightarrow> n < 10 ^ k \<Longrightarrow> length (decimal_digits n) \<le> k"
proof (induction n arbitrary: k rule: decimal_digits.induct)
  case (1 n)
  show ?case
  proof (cases "n < 10")
    case True
    then show ?thesis
      using "1.prems" by (simp add: decimal_digits.simps [of n])
  next
    case False
    with "1.prems" have "1 < k"
      by (cases "k = 1") auto
    then obtain k' where k: "k = Suc k'" and "0 < k'"
      by (cases k) auto
    with "1.prems" have "n div 10 < 10 ^ k'"
      by (simp add: less_mult_imp_div_less mult.commute)
    with "1.IH" [OF False \<open>0 < k'\<close>] have "length (decimal_digits (n div 10)) \<le> k'"
      by simp
    then show ?thesis
      using False k by (simp add: decimal_digits.simps [of n])
  qed
qed

lemma py_str_small:
  assumes "\<bar>n\<bar> < 1000"
  shows "\<exists>s. py_str n = Inr s"
proof -
  from assms have "nat \<bar>n\<bar> < 10 ^ 3"
    by simp
  then have "length (decimal_digits (nat \<bar>n\<bar>)) \<le> 3"
    by (intro decimal_digits_length) simp_all
  then show ?thesis
    by (simp add: py_str_def int_max_str_digits_def Let_def)
qed

lemma map_result_total:
  "(\<And>x. x \<in> set xs \<Longrightarrow> \<exists>y. f x = Inr y) \<Longrightarrow> \<exists>ys. map_result f xs = Inr ys"
proof (induction xs)
  case Nil
  then show ?case by simp
next
  case (Cons x xs)
  then obtain y ys where "f x = Inr y" and "map_result f xs = Inr ys"
    by (metis list.set_intros(1,2))
  then show ?case
    by simp
qed

lemma join_address_small:
  assumes "\<forall>b\<in>set bs. \<bar>b\<bar> < 1000"
  shows "\<exists>s. join_address bs = Inr s"
proof -
  have "\<exists>ss. map_result py_str bs = Inr ss"
    using assms by (intro map_result_total py_str_small) simp
  then show ?thesis
    by (auto simp: join_address_def)
qed

text \<open>A list of small integers is written and read back unchanged.\<close>

lemma join_then_split:
  assumes "\<forall>b\<in>set bs. \<bar>b\<bar> < 1000" and "bs \<noteq> []"
  shows "\<exists>s. join_address bs = Inr s \<and> split_address s = Inr bs"
  using join_address_small [OF assms(1)] split_address_join_address [OF _ assms(2)] by blast

lemma upt_4: "[0..<4] = [0, 1, 2, Suc 2]"
  by (simp add: upt_rec)

lemma network_loop_4:
  "network_loop (a0 # a1 # a2 # a3 # rest) [m0, m1, m2, m3] [0..<4] [0, 0, 0, 0]
     = Inr [a0 AND m0, a1 AND m1, a2 AND m2, a3 AND m3]"
  by (simp add: upt_4)

lemma invert_address_4:
  "invert_address [m0, m1, m2, m3] = [m0 XOR 255, m1 XOR 255, m2 XOR 255, m3 XOR 255]"
  by (simp add: invert_address_def FULL_BYTE_def)

lemma enumerate_list_4:
  "enumerate_list [a0, a1, a2, a3] = [(0, a0), (1, a1), (2, a2), (Suc 2, a3)]"
  by (simp add: enumerate_list_def upt_4)

lemma broadcast_loop_4:
  "broadcast_loop [n0, n1, n2, n3] (enumerate_list [a0, a1, a2, a3]) []
     = Inr [a0 OR n0, a1 OR n1, a2 OR n2, a3 OR n3]"
  by (simp add: enumerate_list_4)

lemma penultimate_loop_4:
  "penultimate_loop [b0, b1, b2, b3] (enumerate_list [b0, b1, b2, b3]) [] = Inr [b0, b1, b2, b3]"
  by (simp add: enumerate_list_4)

lemma length_4_cases:
  assumes "length xs = 4"
  obtains x0 x1 x2 x3 where "xs = [x0, x1, x2, x3]"
  using assms by (auto simp: numeral_eq_Suc length_Suc_conv)

lemma bit_255: "bit (255 :: int) n \<longleftrightarrow> n < 8"
proof -
  have "(255 :: int) = mask 8"
    by (simp add: mask_eq_exp_minus_1)
  then show ?thesis
    by (simp only: bit_mask_iff) simp
qed

lemma and_byte:
  fixes a m :: int
  assumes "take_bit 8 m = m"
  shows "take_bit 8 (a AND m) = a AND m"
  using assms by (metis take_bit_and and.right_idem take_bit_eq_mask and.assoc)

lemma or_inverted_byte:
  fixes a m :: int
  assumes "take_bit 8 a = a" and "take_bit 8 m = m"
  shows "take_bit 8 (a OR (m XOR 255)) = a OR (m XOR 255)"
proof -
  have "take_bit 8 (255 :: int) = 255"
    by simp
  then show ?thesis
    using assms by (simp add: take_bit_or take_bit_xor)
qed

section \<open>Network and broadcast address\<close>

lemma byte_address_4:
  "byte_address [x0, x1, x2, x3] \<longleftrightarrow>
     take_bit 8 x0 = x0 \<and> take_bit 8 x1 = x1 \<and> take_bit 8 x2 = x2 \<and> take_bit 8 x3 = x3"
  by (simp add: byte_address_def byte_range)

lemma byte_address_small:
  assumes "byte_address bs"
  shows "\<forall>b\<in>set bs. \<bar>b\<bar> < 1000" and "bs \<noteq> []"
  using assms by (auto simp: byte_address_def list_all_iff)

lemma mask_upto_4:
  assumes "mask_upto k msk"
  obtains m0 m1 m2 m3 where "msk = [m0, m1, m2, m3]" and "byte_address msk"
proof -
  from assms have "length msk = 4"
    by (simp add: mask_upto_def)
  then obtain m0 m1 m2 m3 where msk: "msk = [m0, m1, m2, m3]"
    by (rule length_4_cases)
  moreover have "byte_address msk"
    using mask_upto_bytes [OF assms] \<open>length msk = 4\<close>
    by (simp add: byte_address_def list_all_iff)
  ultimately show thesis
    by (rule that)
qed

lemma address_bit_map2:
  assumes "i div 8 < length xs" and "i div 8 < length ys"
  shows "address_bit (map2 f xs ys) i = bit (f (xs ! (i div 8)) (ys ! (i div 8))) (7 - i mod 8)"
  using assms by (simp add: address_bit_def)

text \<open>The network address as a list: the bytewise AND of address and mask.\<close>

lemma network_address_result:
  assumes "split_address raw = Inr [a0, a1, a2, a3]"
    and "prefix_of raw = Inr p" and "0 \<le> p" and "p \<le> 32"
  obtains msk s where "get_network_mask raw = Inr msk" and "mask_upto (nat p) msk"
    and "get_network_address_from_raw_address raw = Inr s"
    and "join_address (map2 (AND) [a0, a1, a2, a3] msk) = Inr s"
    and "split_address s = Inr (map2 (AND) [a0, a1, a2, a3] msk)"
    and "byte_address (map2 (AND) [a0, a1, a2, a3] msk)"
proof -
  from network_mask_of_upto [OF assms(3,4)] obtain msk where
    m: "get_network_mask raw = Inr msk" and inv: "mask_upto (nat p) msk"
    using get_network_mask_prefix [OF assms(2)] by auto
  from inv obtain m0 m1 m2 m3 where msk: "msk = [m0, m1, m2, m3]" and bm: "byte_address msk"
    by (rule mask_upto_4)
  let ?net = "map2 (AND) [a0, a1, a2, a3] msk"
  have net: "?net = [a0 AND m0, a1 AND m1, a2 AND m2, a3 AND m3]"
    by (simp add: msk)
  from bm have bm4: "take_bit 8 m0 = m0 \<and> take_bit 8 m1 = m1 \<and> take_bit 8 m2 = m2 \<and> take_bit 8 m3 = m3"
    by (simp add: msk byte_address_4)
  have bn: "byte_address ?net"
    unfolding net byte_address_4 using bm4 by (blast intro: and_byte)
  from join_then_split [OF byte_address_small [OF bn]] obtain s where
    s: "join_address ?net = Inr s" "split_address s = Inr ?net"
    by blast
  have "get_network_address_from_raw_address raw = join_address ?net"
    unfolding net
    by (simp add: get_network_address_from_raw_address_def assms(1) m msk network_loop_4)
  with m inv s bn show thesis
    by (intro that [of msk s]) simp_all
qed

lemma get_ip_from_raw_address_idem:
  "get_ip_from_raw_address raw = Inr t \<Longrightarrow> split_address t = split_address raw"
  by (auto simp: split_address_def get_ip_from_raw_address_eq)

text \<open>
  The broadcast address as a list: the bytewise OR of the address with the inverted mask.
\<close>

lemma broadcast_address_result:
  assumes "split_address raw = Inr [a0, a1, a2, a3]" and "byte_address [a0, a1, a2, a3]"
    and "prefix_of raw = Inr p" and "0 \<le> p" and "p \<le> 32"
  obtains msk s where "get_network_mask raw = Inr msk" and "mask_upto (nat p) msk"
    and "get_broadcast_address_from_raw_address raw = Inr s"
    and "join_address (map2 (OR) [a0, a1, a2, a3] (invert_address msk)) = Inr s"
    and "split_address s = Inr (map2 (OR) [a0, a1, a2, a3] (invert_address msk))"
    and "byte_address (map2 (OR) [a0, a1, a2, a3] (invert_address msk))"
    and "invert_address msk = map (\<lambda>b. b XOR 255) msk"
proof -
  from network_mask_of_upto [OF assms(4,5)] obtain msk where
    m: "get_network_mask raw = Inr msk" and inv: "mask_upto (nat p) msk"
    using get_network_mask_prefix [OF assms(3)] by auto
  from inv obtain m0 m1 m2 m3 where msk: "msk = [m0, m1, m2, m3]" and bm: "byte_address msk"
    by (rule mask_upto_4)
  let ?bc = "map2 (OR) [a0, a1, a2, a3] (invert_address msk)"
  have bc: "?bc = [a0 OR (m0 XOR 255), a1 OR (m1 XOR 255), a2 OR (m2 XOR 255), a3 OR (m3 XOR 255)]"
    by (simp add: msk invert_address_4)
  from bm have bm4: "take_bit 8 m0 = m0 \<and> take_bit 8 m1 = m1 \<and> take_bit 8 m2 = m2 \<and> take_bit 8 m3 = m3"
    by (simp add: msk byte_address_4)
  have bb: "byte_address ?bc"
    unfolding bc byte_address_4 using bm4 assms(2) [unfolded byte_address_4]
    by (blast intro: or_inverted_byte)
  from join_then_split [OF byte_address_small [OF bb]] obtain s where
    s: "join_address ?bc = Inr s" "split_address s = Inr ?bc"
    by blast
  obtain t where t: "get_ip_from_raw_address raw = Inr t"
    by (simp add: get_ip_from_raw_address_eq)
  then have "split_address t = Inr [a0, a1, a2, a3]"
    using assms(1) by (simp add: get_ip_from_raw_address_idem)
  then have "get_broadcast_address_from_raw_address raw = join_address ?bc"
    unfolding bc
    by (simp add: get_broadcast_address_from_raw_address_def t m msk invert_address_4
        broadcast_loop_4)
  moreover have "invert_address msk = map (\<lambda>b. b XOR 255) msk"
    by (simp add: msk invert_address_4)
  ultimately show thesis
    using m inv s bb by (intro that [of msk s]) simp_all
qed

lemma address_value_concat:
  assumes "byte_address [b0, b1, b2, b3]"
  shows "address_value [b0, b1, b2, b3] = concat_bit 8 b3 (concat_bit 8 b2 (concat_bit 8 b1 b0))"
  using assms by (simp add: byte_address_4 address_value_def concat_bit_eq push_bit_eq_mult)

lemma address_bit_4:
  "address_bit [b0, b1, b2, b3] i =
     (if i < 8 then bit b0 (7 - i)
      else if i < 16 then bit b1 (15 - i)
      else if i < 24 then bit b2 (23 - i)
      else if i < 32 then bit b3 (31 - i)
      else address_bit [b0, b1, b2, b3] i)"
proof -
  consider "i < 8" | "8 \<le> i" "i < 16" | "16 \<le> i" "i < 24" | "24 \<le> i" "i < 32" | "32 \<le> i"
    by linarith
  then show ?thesis
  proof cases
    case 1
    then have "i div 8 = 0" and "i mod 8 = i"
      by simp_all
    with 1 show ?thesis
      by (simp add: address_bit_def)
  next
    case 2
    then have "i div 8 = 1" and "i mod 8 = i - 8"
      by presburger+
    moreover have "7 - (i - 8) = 15 - i"
      using 2 by simp
    ultimately show ?thesis
      using 2 by (simp add: address_bit_def)
  next
    case 3
    then have "i div 8 = 2" and "i mod 8 = i - 16"
      by presburger+
    moreover have "7 - (i - 16) = 23 - i"
      using 3 by simp
    ultimately show ?thesis
      using 3 by (simp add: address_bit_def)
  next
    case 4
    then have "i div 8 = 3" and "i mod 8 = i - 24"
      by presburger+
    moreover have "7 - (i - 24) = 31 - i"
      using 4 by simp
    ultimately show ?thesis
      using 4 by (simp add: address_bit_def numeral_3_eq_3)
  next
    case 5
    then show ?thesis
      by simp
  qed
qed

text \<open>
  Bit \<open>n\<close> of the 32-bit number, counted from the least significant end, is bit
  \<open>31 - n\<close> of the byte address.
\<close>

lemma bit_address_value:
  assumes "byte_address bs" and "n < 32"
  shows "bit (address_value bs) n = address_bit bs (31 - n)"
proof -
  from assms(1) have "length bs = 4"
    by (simp add: byte_address_def)
  then obtain b0 b1 b2 b3 where bs: "bs = [b0, b1, b2, b3]"
    by (rule length_4_cases)
  consider "n < 8" | "8 \<le> n" "n < 16" | "16 \<le> n" "n < 24" | "24 \<le> n" "n < 32"
    using assms(2) by linarith
  then show ?thesis
  proof cases
    case 1
    then have "\<not> 31 - n < 24" and "31 - n < 32" and "31 - (31 - n) = n"
      by simp_all
    then have "address_bit [b0, b1, b2, b3] (31 - n) = bit b3 n"
      by (subst address_bit_4) simp
    then show ?thesis
      using 1 assms(1) unfolding bs by (auto simp: address_value_concat bit_concat_bit_iff)
  next
    case 2
    then have "\<not> 31 - n < 16" and "31 - n < 24" and "23 - (31 - n) = n - 8"
      by simp_all
    then have "address_bit [b0, b1, b2, b3] (31 - n) = bit b2 (n - 8)"
      by (subst address_bit_4) simp
    then show ?thesis
      using 2 assms(1) unfolding bs by (auto simp: address_value_concat bit_concat_bit_iff)
  next
    case 3
    then have "\<not> 31 - n < 8" and "31 - n < 16" and "15 - (31 - n) = n - 16"
      by simp_all
    then have "address_bit [b0, b1, b2, b3] (31 - n) = bit b1 (n - 16)"
      by (subst address_bit_4) simp
    moreover have "n - 8 - 8 = n - 16"
      by simp
    ultimately show ?thesis
      using 3 assms(1) unfolding bs by (auto simp: address_value_concat bit_concat_bit_iff)
  next
    case 4
    then have "31 - n < 8" and "7 - (31 - n) = n - 24"
      by simp_all
    then have "address_bit [b0, b1, b2, b3] (31 - n) = bit b0 (n - 24)"
      by (subst address_bit_4) simp
    moreover have "n - 8 - 8 - 8 = n - 24"
      by simp
    ultimately show ?thesis
      using 4 assms(1) unfolding bs by (auto simp: address_value_concat bit_concat_bit_iff)
  qed
qed

lemma low_bits_zero_value:
  assumes "byte_address bs" and "k \<le> 32" and "\<forall>i<32. k \<le> i \<longrightarrow> \<not> address_bit bs i"
  shows "address_value bs mod 2 ^ (32 - k) = 0"
proof -
  have "take_bit (32 - k) (address_value bs) = 0"
  proof (rule bit_eqI)
    fix n
    show "bit (take_bit (32 - k) (address_value bs)) n = bit (0 :: int) n"
    proof (cases "n < 32 - k")
      case True
      then have "n < 32" and "31 - n < 32" and "k \<le> 31 - n"
        by simp_all
      with assms(3) have "\<not> address_bit bs (31 - n)"
        by blast
      then show ?thesis
        using bit_address_value [OF assms(1) \<open>n < 32\<close>] by (simp add: bit_take_bit_iff)
    next
      case False
      then show ?thesis
        by (simp add: bit_take_bit_iff)
    qed
  qed
  then show ?thesis
    by (simp add: take_bit_eq_mod)
qed

lemma low_bits_one_value:
  assumes "byte_address bs" and "k \<le> 32" and "\<forall>i<32. k \<le> i \<longrightarrow> address_bit bs i"
  shows "address_value bs mod 2 ^ (32 - k) = 2 ^ (32 - k) - 1"
proof -
  have "take_bit (32 - k) (address_value bs) = mask (32 - k)"
  proof (rule bit_eqI)
    fix n
    show "bit (take_bit (32 - k) (address_value bs)) n = bit (mask (32 - k) :: int) n"
    proof (cases "n < 32 - k")
      case True
      then have "n < 32" and "31 - n < 32" and "k \<le> 31 - n"
        by simp_all
      with assms(3) have "address_bit bs (31 - n)"
        by blast
      then show ?thesis
        using True bit_address_value [OF assms(1) \<open>n < 32\<close>]
        by (simp add: bit_take_bit_iff bit_mask_iff)
    next
      case False
      then show ?thesis
        by (simp add: bit_take_bit_iff bit_mask_iff)
    qed
  qed
  then show ?thesis
    by (simp add: take_bit_eq_mod mask_eq_exp_minus_1)
qed

text \<open>
  C9. For every prefix length \<open>p\<close> in \<open>[0,32]\<close> and every address of four octets, the
  network address is the bytewise AND of the address with the mask of \<open>p\<close>, and its
  lowest \<open>32 - p\<close> bits are zero: bit \<open>i\<close> is clear for every \<open>i\<close> from \<open>p\<close> to 31
  (counted from the most significant bit), and the 32-bit number is a multiple of
  \<open>2^(32-p)\<close>. The text returned reads back as these four bytes.
\<close>

theorem network_address_low_bits_zero:
  assumes "split_address raw = Inr [a0, a1, a2, a3]"
    and "prefix_of raw = Inr p" and "0 \<le> p" and "p \<le> 32"
  shows "\<exists>msk s net. get_network_mask raw = Inr msk
    \<and> net = map2 (AND) [a0, a1, a2, a3] msk
    \<and> get_network_address_from_raw_address raw = Inr s
    \<and> split_address s = Inr net
    \<and> byte_address net
    \<and> (\<forall>i<32. p \<le> int i \<longrightarrow> \<not> address_bit net i)
    \<and> address_value net mod 2 ^ nat (32 - p) = 0"
proof -
  from network_address_result [OF assms] obtain msk s where
    m: "get_network_mask raw = Inr msk" and inv: "mask_upto (nat p) msk"
    and s: "get_network_address_from_raw_address raw = Inr s"
    "split_address s = Inr (map2 (AND) [a0, a1, a2, a3] msk)"
    and b: "byte_address (map2 (AND) [a0, a1, a2, a3] msk)"
    by blast
  let ?net = "map2 (AND) [a0, a1, a2, a3] msk"
  from inv have len: "length msk = 4"
    by (simp add: mask_upto_def)
  have bits: "\<not> address_bit ?net i" if "i < 32" and "nat p \<le> i" for i
  proof -
    from that inv have "\<not> address_bit msk i"
      by (simp add: mask_upto_def)
    moreover from that have "i div 8 < 4"
      by simp
    ultimately show ?thesis
      using len by (simp add: address_bit_map2 bit_and_iff) (simp add: address_bit_def)
  qed
  then have "\<forall>i<32. nat p \<le> i \<longrightarrow> \<not> address_bit ?net i"
    by blast
  from low_bits_zero_value [OF b _ this] assms(3,4)
  have "address_value ?net mod 2 ^ (32 - nat p) = 0"
    by simp
  moreover have "32 - nat p = nat (32 - p)"
    using assms(3) by simp
  moreover have "\<forall>i<32. p \<le> int i \<longrightarrow> \<not> address_bit ?net i"
    using bits assms(3) by (simp add: nat_le_iff)
  ultimately show ?thesis
    using m s b by auto
qed

theorem network_address_low_bits_zero_witness:
  "split_address ''91.124.230.205/30'' = Inr [91, 124, 230, 205]
   \<and> prefix_of ''91.124.230.205/30'' = Inr 30 \<and> (0::int) \<le> 30 \<and> (30::int) \<le> 32
   \<and> (\<exists>msk s net. get_network_mask ''91.124.230.205/30'' = Inr msk
         \<and> net = map2 (AND) [91, 124, 230, 205] msk
         \<and> get_network_address_from_raw_address ''91.124.230.205/30'' = Inr s
         \<and> split_address s = Inr net
         \<and> byte_address net
         \<and> (\<forall>i<32. 30 \<le> int i \<longrightarrow> \<not> address_bit net i)
         \<and> address_value net mod 2 ^ nat (32 - 30) = 0)"
proof -
  have h: "split_address ''91.124.230.205/30'' = Inr [91, 124, 230, 205]"
    by code_simp
  have k: "prefix_of ''91.124.230.205/30'' = Inr 30"
    by code_simp
  from network_address_low_bits_zero [OF h k] show ?thesis
    using h k by simp
qed

text \<open>
  C10. For every prefix length \<open>p\<close> in \<open>[0,32]\<close> and every address of four octets in
  \<open>[0,255]\<close>, the broadcast address is the bytewise OR of the address with the inverted
  mask (each mask byte XOR 255), and its lowest \<open>32 - p\<close> bits are all one: bit \<open>i\<close> is
  set for every \<open>i\<close> from \<open>p\<close> to 31, and the 32-bit number is \<open>2^(32-p) - 1\<close> modulo
  \<open>2^(32-p)\<close>. The text returned reads back as these four bytes.
\<close>

theorem broadcast_address_low_bits_one:
  assumes "split_address raw = Inr [a0, a1, a2, a3]" and "byte_address [a0, a1, a2, a3]"
    and "prefix_of raw = Inr p" and "0 \<le> p" and "p \<le> 32"
  shows "\<exists>msk s bc. get_network_mask raw = Inr msk
    \<and> invert_address msk = map (\<lambda>b. b XOR 255) msk
    \<and> bc = map2 (OR) [a0, a1, a2, a3] (invert_address msk)
    \<and> get_broadcast_address_from_raw_address raw = Inr s
    \<and> split_address s = Inr bc
    \<and> byte_address bc
    \<and> (\<forall>i<32. p \<le> int i \<longrightarrow> address_bit bc i)
    \<and> address_value bc mod 2 ^ nat (32 - p) = 2 ^ nat (32 - p) - 1"
proof -
  from broadcast_address_result [OF assms] obtain msk s where
    m: "get_network_mask raw = Inr msk" and inv: "mask_upto (nat p) msk"
    and s: "get_broadcast_address_from_raw_address raw = Inr s"
    "split_address s = Inr (map2 (OR) [a0, a1, a2, a3] (invert_address msk))"
    and b: "byte_address (map2 (OR) [a0, a1, a2, a3] (invert_address msk))"
    and i: "invert_address msk = map (\<lambda>b. b XOR 255) msk"
    by blast
  let ?bc = "map2 (OR) [a0, a1, a2, a3] (invert_address msk)"
  from inv have len: "length msk = 4"
    by (simp add: mask_upto_def)
  have bits: "address_bit ?bc i" if "i < 32" and "nat p \<le> i" for i
  proof -
    from that inv have "\<not> address_bit msk i"
      by (simp add: mask_upto_def)
    then have "\<not> bit (msk ! (i div 8)) (7 - i mod 8)"
      by (simp add: address_bit_def)
    moreover from that have "i div 8 < 4"
      by simp
    moreover have "7 - i mod 8 < 8"
      by simp
    ultimately show ?thesis
      using len unfolding i by (simp add: address_bit_map2 bit_or_iff bit_xor_iff bit_255)
  qed
  then have "\<forall>i<32. nat p \<le> i \<longrightarrow> address_bit ?bc i"
    by blast
  from low_bits_one_value [OF b _ this] assms(4,5)
  have "address_value ?bc mod 2 ^ (32 - nat p) = 2 ^ (32 - nat p) - 1"
    by simp
  moreover have "32 - nat p = nat (32 - p)"
    using assms(4) by simp
  moreover have "\<forall>i<32. p \<le> int i \<longrightarrow> address_bit ?bc i"
    using bits assms(4) by (simp add: nat_le_iff)
  ultimately show ?thesis
    using m s b i by auto
qed

theorem broadcast_address_low_bits_one_witness:
  "split_address ''91.124.230.205/30'' = Inr [91, 124, 230, 205]
   \<and> byte_address [91, 124, 230, 205]
   \<and> prefix_of ''91.124.230.205/30'' = Inr 30 \<and> (0::int) \<le> 30 \<and> (30::int) \<le> 32
   \<and> (\<exists>msk s bc. get_network_mask ''91.124.230.205/30'' = Inr msk
         \<and> invert_address msk = map (\<lambda>b. b XOR 255) msk
         \<and> bc = map2 (OR) [91, 124, 230, 205] (invert_address msk)
         \<and> get_broadcast_address_from_raw_address ''91.124.230.205/30'' = Inr s
         \<and> split_address s = Inr bc
         \<and> byte_address bc
         \<and> (\<forall>i<32. 30 \<le> int i \<longrightarrow> address_bit bc i)
         \<and> address_value bc mod 2 ^ nat (32 - 30) = 2 ^ nat (32 - 30) - 1)"
proof -
  have h: "split_address ''91.124.230.205/30'' = Inr [91, 124, 230, 205]"
    by code_simp
  have b: "byte_address [91, 124, 230, 205]"
    by (simp add: byte_address_def)
  have k: "prefix_of ''91.124.230.205/30'' = Inr 30"
    by code_simp
  from broadcast_address_low_bits_one [OF h b k] show ?thesis
    using h b k by simp
qed

section \<open>First and penultimate usable address\<close>

lemma first_usable_of_network:
  assumes "get_network_address_from_raw_address raw = Inr s"
    and "split_address s = Inr [n0, n1, n2, n3]"
  shows "get_first_usable_ip_address_from_raw_address raw = join_address [n0, n1, n2, n3 + 1]"
  using assms
  by (simp add: get_first_usable_ip_address_from_raw_address_def py_index_last_def
      py_store_last_def)

lemma penultimate_of_broadcast:
  assumes "get_broadcast_address_from_raw_address raw = Inr s"
    and "split_address s = Inr [b0, b1, b2, b3]"
  shows "get_penultimate_usable_ip_address_from_raw_address raw
    = join_address [b0, b1, b2, b3 - 2]"
  using assms
  by (simp add: get_penultimate_usable_ip_address_from_raw_address_def py_index_last_def
      py_store_last_def penultimate_loop_4)

text \<open>
  C5. For every raw address of four octets in \<open>[0,255]\<close> with a prefix length in
  \<open>[0,32]\<close>, the first usable address is the network address with its last byte
  incremented by 1, and the penultimate usable address is the broadcast address with its
  last byte decremented by 2; the first three bytes are those of the network address and
  of the broadcast address, so nothing is carried or borrowed.
\<close>

theorem first_and_penultimate_usable:
  assumes "split_address raw = Inr [a0, a1, a2, a3]" and "byte_address [a0, a1, a2, a3]"
    and "prefix_of raw = Inr p" and "0 \<le> p" and "p \<le> 32"
  shows "\<exists>sn net sb bc sf sp.
      get_network_address_from_raw_address raw = Inr sn \<and> split_address sn = Inr net
    \<and> get_broadcast_address_from_raw_address raw = Inr sb \<and> split_address sb = Inr bc
    \<and> length net = 4 \<and> length bc = 4
    \<and> get_first_usable_ip_address_from_raw_address raw = Inr sf
    \<and> split_address sf = Inr (net[3 := net ! 3 + 1])
    \<and> get_penultimate_usable_ip_address_from_raw_address raw = Inr sp
    \<and> split_address sp = Inr (bc[3 := bc ! 3 - 2])"
proof -
  from network_address_result [OF assms(1,3,4,5)] obtain mskn sn where
    sn: "get_network_address_from_raw_address raw = Inr sn"
    "split_address sn = Inr (map2 (AND) [a0, a1, a2, a3] mskn)"
    and bn: "byte_address (map2 (AND) [a0, a1, a2, a3] mskn)"
    by blast
  from broadcast_address_result [OF assms] obtain mskb sb where
    sb: "get_broadcast_address_from_raw_address raw = Inr sb"
    "split_address sb = Inr (map2 (OR) [a0, a1, a2, a3] (invert_address mskb))"
    and bb: "byte_address (map2 (OR) [a0, a1, a2, a3] (invert_address mskb))"
    by blast
  define net where "net = map2 (AND) [a0, a1, a2, a3] mskn"
  define bc where "bc = map2 (OR) [a0, a1, a2, a3] (invert_address mskb)"
  from bn have "length net = 4"
    by (simp add: net_def byte_address_def)
  then obtain n0 n1 n2 n3 where net: "net = [n0, n1, n2, n3]"
    by (rule length_4_cases)
  from bb have "length bc = 4"
    by (simp add: bc_def byte_address_def)
  then obtain b0 b1 b2 b3 where bc: "bc = [b0, b1, b2, b3]"
    by (rule length_4_cases)
  from bn have rn: "0 \<le> n0 \<and> n0 \<le> 255 \<and> 0 \<le> n1 \<and> n1 \<le> 255 \<and> 0 \<le> n2 \<and> n2 \<le> 255 \<and> 0 \<le> n3 \<and> n3 \<le> 255"
    unfolding net_def [symmetric] net by (simp add: byte_address_def)
  from bb have rb: "0 \<le> b0 \<and> b0 \<le> 255 \<and> 0 \<le> b1 \<and> b1 \<le> 255 \<and> 0 \<le> b2 \<and> b2 \<le> 255 \<and> 0 \<le> b3 \<and> b3 \<le> 255"
    unfolding bc_def [symmetric] bc by (simp add: byte_address_def)
  have "\<forall>b\<in>set [n0, n1, n2, n3 + 1]. \<bar>b\<bar> < 1000"
    using rn by auto
  from join_then_split [OF this] obtain sf where
    sf: "join_address [n0, n1, n2, n3 + 1] = Inr sf" "split_address sf = Inr [n0, n1, n2, n3 + 1]"
    by auto
  have "\<forall>b\<in>set [b0, b1, b2, b3 - 2]. \<bar>b\<bar> < 1000"
    using rb by auto
  from join_then_split [OF this] obtain sp where
    sp: "join_address [b0, b1, b2, b3 - 2] = Inr sp" "split_address sp = Inr [b0, b1, b2, b3 - 2]"
    by auto
  have first: "get_first_usable_ip_address_from_raw_address raw = Inr sf"
    using first_usable_of_network [OF sn(1), of n0 n1 n2 n3] sn(2) sf(1)
    by (simp add: net_def [symmetric] net)
  have pen: "get_penultimate_usable_ip_address_from_raw_address raw = Inr sp"
    using penultimate_of_broadcast [OF sb(1), of b0 b1 b2 b3] sb(2) sp(1)
    by (simp add: bc_def [symmetric] bc)
  have "net[3 := net ! 3 + 1] = [n0, n1, n2, n3 + 1]"
    by (simp add: net numeral_3_eq_3)
  moreover have "bc[3 := bc ! 3 - 2] = [b0, b1, b2, b3 - 2]"
    by (simp add: bc numeral_3_eq_3)
  ultimately show ?thesis
    using sn sb first pen sf(2) sp(2) \<open>length net = 4\<close> \<open>length bc = 4\<close>
    unfolding net_def [symmetric] bc_def [symmetric]
    by (intro exI [of _ sn] exI [of _ net] exI [of _ sb] exI [of _ bc] exI [of _ sf] exI [of _ sp])
      simp
qed

theorem first_and_penultimate_usable_witness:
  "split_address ''215.017.125.177/28'' = Inr [215, 17, 125, 177]
   \<and> byte_address [215, 17, 125, 177]
   \<and> prefix_of ''215.017.125.177/28'' = Inr 28 \<and> (0::int) \<le> 28 \<and> (28::int) \<le> 32
   \<and> (\<exists>sn net sb bc sf sp.
      get_network_address_from_raw_address ''215.017.125.177/28'' = Inr sn
    \<and> split_address sn = Inr net
    \<and> get_broadcast_address_from_raw_address ''215.017.125.177/28'' = Inr sb
    \<and> split_address sb = Inr bc
    \<and> length net = 4 \<and> length bc = 4
    \<and> get_first_usable_ip_address_from_raw_address ''215.017.125.177/28'' = Inr sf
    \<and> split_address sf = Inr (net[3 := net ! 3 + 1])
    \<and> get_penultimate_usable_ip_address_from_raw_address ''215.017.125.177/28'' = Inr sp
    \<and> split_address sp = Inr (bc[3 := bc ! 3 - 2]))"
proof -
  have h: "split_address ''215.017.125.177/28'' = Inr [215, 17, 125, 177]"
    by code_simp
  have b: "byte_address [215, 17, 125, 177]"
    by (simp add: byte_address_def)
  have k: "prefix_of ''215.017.125.177/28'' = Inr 28"
    by code_simp
  from first_and_penultimate_usable [OF h b k] show ?thesis
    using h b k by simp
qed

text \<open>
  C2 at its failing inputs. With the prefix 32 the network address and the broadcast
  address are the address itself. A last octet of 255 then makes the first usable address
  end in 256, and a last octet of 0 makes the penultimate usable address end in \<open>-2\<close>:
  neither is a byte.
\<close>

theorem usable_addresses_leave_byte_range:
  "get_network_address_from_raw_address ''1.2.3.255/32'' = Inr ''1.2.3.255''
   \<and> get_first_usable_ip_address_from_raw_address ''1.2.3.255/32'' = Inr ''1.2.3.256''
   \<and> split_address ''1.2.3.256'' = Inr [1, 2, 3, 256]
   \<and> get_broadcast_address_from_raw_address ''1.2.3.0/32'' = Inr ''1.2.3.0''
   \<and> get_penultimate_usable_ip_address_from_raw_address ''1.2.3.0/32'' = Inr ''1.2.3.-2''
   \<and> split_address ''1.2.3.-2'' = Inr [1, 2, 3, - 2]"
proof -
  have a: "get_network_address_from_raw_address ''1.2.3.255/32'' = Inr ''1.2.3.255''"
    by code_simp
  have b: "get_first_usable_ip_address_from_raw_address ''1.2.3.255/32'' = Inr ''1.2.3.256''"
    by code_simp
  have c: "split_address ''1.2.3.256'' = Inr [1, 2, 3, 256]"
    by code_simp
  have d: "get_broadcast_address_from_raw_address ''1.2.3.0/32'' = Inr ''1.2.3.0''"
    by code_simp
  have e: "get_penultimate_usable_ip_address_from_raw_address ''1.2.3.0/32'' = Inr ''1.2.3.-2''"
    by code_simp
  have f: "split_address ''1.2.3.-2'' = Inr [1, 2, 3, - 2]"
    by code_simp
  show ?thesis
    by (simp only: a b c d e f simp_thms)
qed

section \<open>Canonical decimal text\<close>

lemma char_of_48: "char_of (48 :: nat) = CHR ''0''"
  by code_simp

lemma char_of_digit_value:
  assumes "is_digit c"
  shows "char_of (48 + nat (digit_value c)) = c"
proof -
  from assms have "48 \<le> (of_char c :: nat)"
    by (simp add: is_digit_def)
  then have "48 + nat (digit_value c) = (of_char c :: nat)"
    unfolding digit_value_def by arith
  then show ?thesis
    by simp
qed

lemma digit_value_range: "is_digit c \<Longrightarrow> 0 \<le> digit_value c \<and> digit_value c < 10"
  by (auto simp: is_digit_def digit_value_def)

lemma digit_value_zero: "is_digit c \<Longrightarrow> digit_value c = 0 \<longleftrightarrow> c = CHR ''0''"
proof
  assume d: "is_digit c" and z: "digit_value c = 0"
  from char_of_digit_value [OF d] have "char_of (48 + nat 0) = c"
    unfolding z .
  then show "c = CHR ''0''"
    by (simp add: char_of_48)
next
  assume "c = CHR ''0''"
  then show "digit_value c = 0"
    by (simp add: digit_value_def)
qed

lemma decimal_value_nonneg: "list_all is_digit ds \<Longrightarrow> 0 \<le> decimal_value ds"
proof (induction ds rule: rev_induct)
  case Nil
  then show ?case by (simp add: decimal_value_def)
next
  case (snoc c ds)
  then show ?case
    using digit_value_range [of c] by (simp add: decimal_value_snoc)
qed

lemma decimal_value_zero:
  "list_all is_digit ds \<Longrightarrow> decimal_value ds = 0 \<longleftrightarrow> (\<forall>c\<in>set ds. c = CHR ''0'')"
proof (induction ds rule: rev_induct)
  case Nil
  then show ?case by (simp add: decimal_value_def)
next
  case (snoc c ds)
  then have d: "is_digit c" and ds: "list_all is_digit ds"
    by simp_all
  have "10 * decimal_value ds + digit_value c = 0 \<longleftrightarrow> decimal_value ds = 0 \<and> digit_value c = 0"
    using decimal_value_nonneg [OF ds] digit_value_range [OF d] by arith
  then show ?case
    using snoc.IH [OF ds] digit_value_zero [OF d] by (auto simp: decimal_value_snoc)
qed

lemma decimal_digits_snoc:
  assumes "d < 10"
  shows "decimal_digits (10 * v + d) =
    (if v = 0 then [char_of (48 + d)] else decimal_digits v @ [char_of (48 + d)])"
proof (cases "v = 0")
  case True
  then show ?thesis
    using assms by (simp add: decimal_digits.simps [of d])
next
  case False
  then have "\<not> 10 * v + d < 10" and "(10 * v + d) div 10 = v" and "(10 * v + d) mod 10 = d"
    using assms by simp_all
  then show ?thesis
    using False by (simp add: decimal_digits.simps [of "10 * v + d"])
qed

text \<open>Writing the value of a digit text gives the text without its leading zeros.\<close>

lemma decimal_digits_decimal_value:
  "list_all is_digit ds \<Longrightarrow> decimal_digits (nat (decimal_value ds)) = strip_leading_zeros ds"
proof (induction ds rule: rev_induct)
  case Nil
  then show ?case
    by (simp add: decimal_value_def strip_leading_zeros_def decimal_digits.simps [of 0]
        char_of_48)
next
  case (snoc c ds)
  then have d: "is_digit c" and ds: "list_all is_digit ds"
    by simp_all
  let ?v = "nat (decimal_value ds)" and ?d = "nat (digit_value c)"
  have small: "?d < 10"
    using digit_value_range [OF d] by arith
  have "nat (decimal_value (ds @ [c])) = 10 * ?v + ?d"
    using decimal_value_nonneg [OF ds] digit_value_range [OF d]
    by (simp add: decimal_value_snoc nat_add_distrib nat_mult_distrib)
  then have digits: "decimal_digits (nat (decimal_value (ds @ [c]))) =
      (if ?v = 0 then [c] else decimal_digits ?v @ [c])"
    by (simp add: decimal_digits_snoc [OF small] char_of_digit_value [OF d])
  show ?case
  proof (cases "?v = 0")
    case True
    then have zeros: "\<forall>x\<in>set ds. x = CHR ''0''"
      using decimal_value_zero [OF ds] decimal_value_nonneg [OF ds] by simp
    then have "dropWhile (\<lambda>x. x = CHR ''0'') (ds @ [c]) = dropWhile (\<lambda>x. x = CHR ''0'') [c]"
      by (simp add: dropWhile_append2)
    then have "strip_leading_zeros (ds @ [c]) = [c]"
      by (simp add: strip_leading_zeros_def)
    then show ?thesis
      using digits True by simp
  next
    case False
    then have "\<not> (\<forall>x\<in>set ds. x = CHR ''0'')"
      using decimal_value_zero [OF ds] by auto
    then have "dropWhile (\<lambda>x. x = CHR ''0'') ds \<noteq> []"
      by (simp add: dropWhile_eq_Nil_conv)
    moreover from this have "dropWhile (\<lambda>x. x = CHR ''0'') (ds @ [c])
        = dropWhile (\<lambda>x. x = CHR ''0'') ds @ [c]"
      by (metis dropWhile_append1 dropWhile_eq_Nil_conv)
    ultimately have "strip_leading_zeros (ds @ [c]) = strip_leading_zeros ds @ [c]"
      by (auto simp: strip_leading_zeros_def Let_def)
    then show ?thesis
      using digits False snoc.IH [OF ds] by simp
  qed
qed

lemma strip_leading_zeros_length:
  "s \<noteq> [] \<Longrightarrow> length (strip_leading_zeros s) \<le> length s"
  using length_dropWhile_le [of "\<lambda>c. c = CHR ''0''" s]
  by (cases s) (auto simp: strip_leading_zeros_def Let_def)

lemma octet_text_int:
  assumes "octet_text s"
  shows "py_int s = Inr (decimal_value s)"
  using assms py_int_digits(1) [of s] by (simp add: octet_text_def)

lemma octet_text_str:
  assumes "octet_text s"
  shows "py_str (decimal_value s) = Inr (strip_leading_zeros s)"
proof -
  from assms have ds: "list_all is_digit s" and ne: "s \<noteq> []" and len: "length s \<le> int_max_str_digits"
    by (simp_all add: octet_text_def)
  have "\<bar>decimal_value s\<bar> = decimal_value s" and "\<not> decimal_value s < 0"
    using decimal_value_nonneg [OF ds] by simp_all
  moreover have "length (strip_leading_zeros s) \<le> int_max_str_digits"
    using strip_leading_zeros_length [OF ne] len by simp
  ultimately show ?thesis
    by (simp add: py_str_def decimal_digits_decimal_value [OF ds])
qed

lemma octet_text_no_separator:
  assumes "octet_text s"
  shows "CHR ''.'' \<notin> set s" and "CHR ''/'' \<notin> set s"
proof -
  have "c \<noteq> CHR ''.'' \<and> c \<noteq> CHR ''/''" if "c \<in> set s" for c
  proof -
    from that assms have "is_digit c"
      by (simp add: octet_text_def list_all_iff)
    then show ?thesis
      by (rule is_digit_not_sign [THEN conjunct2, THEN conjunct2])
  qed
  then show "CHR ''.'' \<notin> set s" and "CHR ''/'' \<notin> set s"
    by blast+
qed

section \<open>The address part of a raw address\<close>

lemma get_ip_of_raw:
  assumes "CHR ''/'' \<notin> set ip"
  shows "get_ip_from_raw_address (ip @ ''/'' @ P) = Inr ip"
proof -
  have "takeWhile (\<lambda>c. c \<noteq> CHR ''/'') (ip @ ''/'' @ P)
      = ip @ takeWhile (\<lambda>c. c \<noteq> CHR ''/'') (''/'' @ P)"
    using assms by (intro takeWhile_append2) auto
  then show ?thesis
    by (simp add: get_ip_from_raw_address_eq)
qed

lemma split_address_of_raw:
  assumes "octet_text A" and "octet_text B" and "octet_text C" and "octet_text D"
  shows "split_address (A @ ''.'' @ B @ ''.'' @ C @ ''.'' @ D @ ''/'' @ P)
    = Inr [decimal_value A, decimal_value B, decimal_value C, decimal_value D]"
proof -
  let ?ip = "A @ ''.'' @ B @ ''.'' @ C @ ''.'' @ D"
  have "CHR ''/'' \<notin> set ?ip"
    using assms by (simp add: octet_text_no_separator)
  from get_ip_of_raw [OF this, of P]
  have ip: "get_ip_from_raw_address (A @ ''.'' @ B @ ''.'' @ C @ ''.'' @ D @ ''/'' @ P) = Inr ?ip"
    by simp
  have "py_split CHR ''.'' ?ip = [A, B, C, D]"
    using assms by (simp add: py_split_field py_split_last_field octet_text_no_separator)
  then show ?thesis
    using assms ip by (simp add: split_address_def octet_text_int)
qed

lemma join_address_of_values:
  assumes "octet_text A" and "octet_text B" and "octet_text C" and "octet_text D"
  shows "join_address [decimal_value A, decimal_value B, decimal_value C, decimal_value D]
    = Inr (strip_leading_zeros A @ ''.'' @ strip_leading_zeros B @ ''.''
           @ strip_leading_zeros C @ ''.'' @ strip_leading_zeros D)"
  using assms by (simp add: join_address_def octet_text_str)

text \<open>Lines already printed stay printed.\<close>

lemma print_all_prefix: "take (length out) (fst (print_all items out)) = out"
proof (induction items arbitrary: out)
  case Nil
  then show ?case by simp
next
  case (Cons item items)
  obtain label v where item: "item = (label, v)"
    by (cases item)
  show ?case
  proof (cases v)
    case (Inl e)
    then show ?thesis
      by (simp add: item)
  next
    case (Inr s)
    let ?out = "out @ [label @ '' '' @ s]"
    have "take (length out) (fst (print_all items ?out))
        = take (length out) (take (length ?out) (fst (print_all items ?out)))"
      by (simp add: min_def)
    also have "\<dots> = take (length out) ?out"
      by (simp only: Cons.IH)
    finally show ?thesis
      by (simp add: item Inr)
  qed
qed

lemma print_all_first:
  assumes "v = Inr s"
  shows "take 1 (fst (print_all ((label, v) # items) [])) = [label @ '' '' @ s]"
  using print_all_prefix [of "[label @ '' '' @ s]" items] assms by simp

lemma get_info_first_line:
  assumes "get_ip_from_raw_address raw = Inr ip"
  shows "take 1 (fst (get_info raw)) = [''IP address: '' @ ip]"
proof -
  have "take 1 (fst (get_info raw)) = [''IP address:'' @ '' '' @ ip]"
    unfolding get_info_def by (rule print_all_first [OF assms])
  then show ?thesis
    by simp
qed

text \<open>
  C1, as the code has it. For a raw address whose address part is four octet texts,
  \<open>split_address\<close> followed by \<open>join_address\<close> gives the canonical dotted form: every
  octet as its decimal value, without leading zeros; \<open>215.017.125.177/28\<close> becomes
  \<open>215.17.125.177\<close>. The value reported as IP address is not formatted this way: it is
  the text before the first slash, unchanged, so leading zeros stay.
\<close>

theorem split_then_join_canonical:
  assumes "octet_text A" and "octet_text B" and "octet_text C" and "octet_text D"
  shows "split_address (A @ ''.'' @ B @ ''.'' @ C @ ''.'' @ D @ ''/'' @ P)
      = Inr [decimal_value A, decimal_value B, decimal_value C, decimal_value D]
    \<and> join_address [decimal_value A, decimal_value B, decimal_value C, decimal_value D]
      = Inr (strip_leading_zeros A @ ''.'' @ strip_leading_zeros B @ ''.''
             @ strip_leading_zeros C @ ''.'' @ strip_leading_zeros D)
    \<and> get_ip_from_raw_address (A @ ''.'' @ B @ ''.'' @ C @ ''.'' @ D @ ''/'' @ P)
      = Inr (A @ ''.'' @ B @ ''.'' @ C @ ''.'' @ D)
    \<and> take 1 (fst (get_info (A @ ''.'' @ B @ ''.'' @ C @ ''.'' @ D @ ''/'' @ P)))
      = [''IP address: '' @ A @ ''.'' @ B @ ''.'' @ C @ ''.'' @ D]
    \<and> and_then (split_address ''215.017.125.177/28'') join_address = Inr ''215.17.125.177''"
proof -
  let ?ip = "A @ ''.'' @ B @ ''.'' @ C @ ''.'' @ D"
  have "CHR ''/'' \<notin> set ?ip"
    using assms by (simp add: octet_text_no_separator)
  from get_ip_of_raw [OF this, of P]
  have ip: "get_ip_from_raw_address (?ip @ ''/'' @ P) = Inr ?ip" .
  have line: "take 1 (fst (get_info (?ip @ ''/'' @ P))) = [''IP address: '' @ ?ip]"
    by (rule get_info_first_line [OF ip])
  have example: "and_then (split_address ''215.017.125.177/28'') join_address
      = Inr ''215.17.125.177''"
    by code_simp
  show ?thesis
    using split_address_of_raw [OF assms, of P] join_address_of_values [OF assms] ip line example
    by simp
qed

theorem split_then_join_canonical_witness:
  "octet_text ''215'' \<and> octet_text ''017'' \<and> octet_text ''125'' \<and> octet_text ''177''
   \<and> split_address ''215.017.125.177/28'' = Inr [215, 17, 125, 177]
   \<and> join_address [215, 17, 125, 177] = Inr ''215.17.125.177''
   \<and> get_ip_from_raw_address ''215.017.125.177/28'' = Inr ''215.017.125.177''"
proof -
  have a: "octet_text ''215''" and b: "octet_text ''017''"
    and c: "octet_text ''125''" and d: "octet_text ''177''"
    by (simp_all add: octet_text_def is_digit_def int_max_str_digits_def)
  have v: "decimal_value ''215'' = 215" "decimal_value ''017'' = 17"
    "decimal_value ''125'' = 125" "decimal_value ''177'' = 177"
    by (simp_all add: decimal_value_def digit_value_def)
  have s: "strip_leading_zeros ''215'' = ''215''" "strip_leading_zeros ''017'' = ''17''"
    "strip_leading_zeros ''125'' = ''125''" "strip_leading_zeros ''177'' = ''177''"
    by (simp_all add: strip_leading_zeros_def)
  from split_then_join_canonical [OF a b c d, of "''28''"] show ?thesis
    using a b c d by (simp add: v s)
qed

text \<open>
  The IP address reported for \<open>215.017.125.177/28\<close> is \<open>215.017.125.177\<close>, both as the
  result of \<open>get_ip_from_raw_address\<close> and as the first line printed by \<open>get_info\<close>.
\<close>

theorem ip_address_not_normalized_counterexample:
  "get_ip_from_raw_address ''215.017.125.177/28'' = Inr ''215.017.125.177''
   \<and> get_ip_from_raw_address ''215.017.125.177/28'' \<noteq> Inr ''215.17.125.177''
   \<and> take 1 (fst (get_info ''215.017.125.177/28'')) = [''IP address: 215.017.125.177'']"
proof -
  have ip: "get_ip_from_raw_address ''215.017.125.177/28'' = Inr ''215.017.125.177''"
    by code_simp
  from get_info_first_line [OF ip]
  have "take 1 (fst (get_info ''215.017.125.177/28'')) = [''IP address: 215.017.125.177'']"
    by simp
  then show ?thesis
    by (simp add: ip)
qed

end
